theory Spec2Isabelle
  imports Main "HOL-Library.Word"
begin

section \<open>The DOCA receive operator of the advanced networking benchmark\<close>

text \<open>
  A shallow embedding of \<^verbatim>\<open>AdvNetworkingBenchDocaRxOp\<close>
  (\<^verbatim>\<open>applications/adv_networking_bench/cpp/doca_bench_op_rx.h\<close>).

  The operator runs on one thread; its members are the fields of the record \<open>state\<close>.
  What the operator does to its collaborators (CUDA runtime, logger) is appended to the
  field \<open>trace\<close>, one \<open>effect\<close> per call, in program order. What the collaborators
  answer is read from an oracle \<open>env\<close>: the answer of \<^verbatim>\<open>cudaEventQuery\<close> and of
  \<^verbatim>\<open>cudaGetLastError\<close> is a function of the time of the call (the field
  \<open>clock\<close>, which counts the answers read so far), so that every behaviour of the device
  is covered by some oracle.
\<close>

subsection \<open>Data\<close>

text \<open>
  Handles of the CUDA events the operator creates in \<^verbatim>\<open>initialize\<close>:
  \<^verbatim>\<open>events_[n]\<close>, \<^verbatim>\<open>events_start_[n]\<close>, and the null handle of a
  value-initialised \<^verbatim>\<open>cudaEvent_t\<close>.
\<close>

datatype cudaEvent = NullEvent | events nat | events_start nat

text \<open>
  Modelled from the spec: \<^verbatim>\<open>AdvNetBurstParams\<close> and its accessors
  \<^verbatim>\<open>adv_net_get_q_id\<close>, \<^verbatim>\<open>adv_net_get_num_pkts\<close>,
  \<^verbatim>\<open>adv_net_get_pkt_ptr\<close>, \<^verbatim>\<open>adv_net_get_burst_tot_byte\<close> are declared in
  \<^verbatim>\<open>adv_network_rx.h\<close>, which is not part of the sources at hand. A burst
  "has a queue id, packet count, total byte count, and per-index payload pointer accessor".
  Addresses are natural numbers.
\<close>

record AdvNetBurstParams =
  q_id :: nat
  num_pkts :: nat
  tot_byte :: int
  pkt_ptr :: "nat \<Rightarrow> nat"

definition adv_net_get_q_id :: "AdvNetBurstParams \<Rightarrow> nat" where
  "adv_net_get_q_id burst = q_id burst"

definition adv_net_get_num_pkts :: "AdvNetBurstParams \<Rightarrow> nat" where
  "adv_net_get_num_pkts burst = num_pkts burst"

definition adv_net_get_pkt_ptr :: "AdvNetBurstParams \<Rightarrow> nat \<Rightarrow> nat" where
  "adv_net_get_pkt_ptr burst idx = pkt_ptr burst idx"

definition adv_net_get_burst_tot_byte :: "AdvNetBurstParams \<Rightarrow> int" where
  "adv_net_get_burst_tot_byte burst = tot_byte burst"

definition num_concurrent :: nat where
  "num_concurrent = 4"

definition MAX_ANO_BURSTS :: nat where
  "MAX_ANO_BURSTS = 10"

text \<open>
  \<^verbatim>\<open>struct BatchAggregationParams\<close>: an array of \<^verbatim>\<open>MAX_ANO_BURSTS\<close> shared
  pointers (\<open>None\<close> is the null pointer), the number of bursts, the completion event.
\<close>

record BatchAggregationParams =
  bursts :: "AdvNetBurstParams option list"
  num_bursts :: int
  evt :: cudaEvent

text \<open>
  The operator's parameters (\<^verbatim>\<open>uint32_t batch_size\<close>, \<^verbatim>\<open>uint16_t max_packet_size\<close>,
  \<^verbatim>\<open>uint16_t header_size\<close>) and the preprocessor switch \<^verbatim>\<open>DEBUG_CUDA_TIMES\<close>,
  which no file at hand defines: \<open>debug_cuda_times\<close> says whether
  \<^verbatim>\<open>DEBUG_CUDA_TIMES == 1\<close> holds in the build (an undefined macro makes it false).
\<close>

record config =
  batch_size :: "32 word"
  max_packet_size :: "16 word"
  header_size :: "16 word"
  debug_cuda_times :: bool

datatype log_msg =
    NoBurstInput
  | FellBehind
  | AggrTimes nat

text \<open>
  The calls the operator makes. \<open>KernelLaunch dst tbl payload n stream\<close> is
  \<^verbatim>\<open>simple_packet_reorder(full_batch_data_d_[dst], h_dev_ptrs_[..], payload, n, streams_[stream])\<close>,
  where \<open>tbl\<close> is the content of the first \<open>n\<close> entries of the pointer table handed
  over at the time of the call. \<open>EventQuery e ok\<close> is a call of
  \<^verbatim>\<open>cudaEventQuery(e)\<close> together with whether it answered \<^verbatim>\<open>cudaSuccess\<close>.
  \<open>EventSynchronize\<close> is the only call here that blocks the calling thread.
\<close>

datatype effect =
    EventQuery cudaEvent bool
  | EventRecord cudaEvent nat
  | EventSynchronize cudaEvent
  | EventElapsedTime cudaEvent cudaEvent
  | KernelLaunch nat "nat list" nat nat nat
  | GetLastError bool
  | LogError log_msg
  | LogInfo log_msg

record env =
  event_done :: "nat \<Rightarrow> cudaEvent \<Rightarrow> bool"
  launch_ok :: "nat \<Rightarrow> bool"

text \<open>
  The members of the operator. The 64-bit counters are unbounded here (their overflow is
  out of reach); \<open>h_dev_ptrs s n i\<close> is entry \<open>i\<close> of the pinned pointer table of
  slot \<open>n\<close>.
\<close>

record state =
  cur_batch :: BatchAggregationParams
  cur_batch_idx :: nat
  batch_q :: "BatchAggregationParams list"
  ttl_bytes_recv :: int
  ttl_pkts_recv :: int
  aggr_pkts_recv :: nat
  nom_payload_size :: "16 word"
  h_dev_ptrs :: "nat \<Rightarrow> nat \<Rightarrow> nat"
  clock :: nat
  trace :: "effect list"

datatype fault = CudaFault | TableOverrun

text \<open>How one pass through the body of the packet loop ends.\<close>

datatype ctl = Continue state | Return state | Abort fault

subsection \<open>Operations\<close>

text \<open>
  The state after \<^verbatim>\<open>initialize\<close>: the members have their default initialisers,
  \<^verbatim>\<open>cur_batch_{}\<close> is value-initialised, the pinned tables hold whatever
  \<^verbatim>\<open>cudaMallocHost\<close> returned (\<open>mem\<close>). The trace starts empty: it records
  the calls made by \<^verbatim>\<open>compute\<close>.
\<close>

definition initialize :: "config \<Rightarrow> (nat \<Rightarrow> nat \<Rightarrow> nat) \<Rightarrow> state" where
  "initialize cfg mem =
     \<lparr> cur_batch = \<lparr> bursts = replicate MAX_ANO_BURSTS None, num_bursts = 0, evt = NullEvent \<rparr>,
       cur_batch_idx = 0,
       batch_q = [],
       ttl_bytes_recv = 0,
       ttl_pkts_recv = 0,
       aggr_pkts_recv = 0,
       nom_payload_size = max_packet_size cfg - header_size cfg,
       h_dev_ptrs = mem,
       clock = 0,
       trace = [] \<rparr>"

definition emit :: "effect list \<Rightarrow> state \<Rightarrow> state" where
  "emit es s = s\<lparr> trace := trace s @ es \<rparr>"

text \<open>
  \<^verbatim>\<open>free_batch_queue\<close>: while the queue is not empty, poll the event of its front;
  pop on success, stop otherwise.
\<close>

function free_batch_queue :: "env \<Rightarrow> state \<Rightarrow> state" where
  "free_batch_queue e s =
     (case batch_q s of
        [] \<Rightarrow> s
      | batch # rest \<Rightarrow>
          (let ok = event_done e (clock s) (evt batch);
               s1 = emit [EventQuery (evt batch) ok] (s\<lparr> clock := clock s + 1 \<rparr>)
           in if ok then free_batch_queue e (s1\<lparr> batch_q := rest \<rparr>) else s1))"
  by pat_completeness auto
termination
  by (relation "measure (\<lambda>(e, s). length (batch_q s))") (auto simp: emit_def)

declare free_batch_queue.simps [simp del]

text \<open>
  Lines 141 to 168: the launch of the reorder kernel on the current slot, the push of the
  batch record, the check of \<^verbatim>\<open>cudaGetLastError\<close> and the advance of the slot index.
  On a CUDA error the operator logs it and calls \<^verbatim>\<open>exit(1)\<close>: the process ends,
  which is the outcome \<open>Abort CudaFault\<close>.
\<close>

definition launch :: "config \<Rightarrow> env \<Rightarrow> state \<Rightarrow> ctl" where
  "launch cfg e s =
     (let c = cur_batch_idx s;
          n = unat (batch_size cfg);
          s1 = (if debug_cuda_times cfg then emit [EventRecord (events_start c) c] s else s);
          s2 = emit [KernelLaunch c (map (h_dev_ptrs s1 c) [0..<n]) (unat (nom_payload_size s1)) n c] s1;
          s3 = (if debug_cuda_times cfg
                then emit [EventRecord (events c) c, EventSynchronize (events c),
                           EventElapsedTime (events_start c) (events c),
                           LogInfo (AggrTimes (aggr_pkts_recv s2))] s2
                else s2);
          s4 = s3\<lparr> cur_batch := (cur_batch s3)\<lparr> evt := events c \<rparr> \<rparr>;
          s5 = s4\<lparr> batch_q := batch_q s4 @ [cur_batch s4] \<rparr>;
          s6 = s5\<lparr> cur_batch := (cur_batch s5)\<lparr> num_bursts := 0 \<rparr> \<rparr>;
          ok = launch_ok e (clock s6);
          s7 = emit [GetLastError ok] (s6\<lparr> clock := clock s6 + 1 \<rparr>)
      in if \<not> ok
         then Abort CudaFault
         else Continue (s7\<lparr> cur_batch_idx := (c + 1) mod num_concurrent \<rparr>))"

text \<open>
  Lines 171 and 172: the payload pointer of the packet goes into the table of the current
  slot. The table has \<open>batch_size\<close> entries; a write past its end is a fault of its own.
\<close>

definition store_ptr :: "config \<Rightarrow> AdvNetBurstParams \<Rightarrow> nat \<Rightarrow> state \<Rightarrow> ctl" where
  "store_ptr cfg burst pkt_idx s =
     (let c = cur_batch_idx s; i = aggr_pkts_recv s
      in if i < unat (batch_size cfg)
         then Continue (s\<lparr> h_dev_ptrs := (h_dev_ptrs s)
                              (c := (h_dev_ptrs s c)
                                 (i := adv_net_get_pkt_ptr burst pkt_idx + unat (header_size cfg))),
                           aggr_pkts_recv := i + 1 \<rparr>)
         else Abort TableOverrun)"

text \<open>The body of the packet loop, lines 128 to 172.\<close>

definition process_pkt :: "config \<Rightarrow> env \<Rightarrow> AdvNetBurstParams \<Rightarrow> nat \<Rightarrow> state \<Rightarrow> ctl" where
  "process_pkt cfg e burst pkt_idx s =
     (if unat (batch_size cfg) \<le> aggr_pkts_recv s
      then (let s1 = free_batch_queue e (s\<lparr> aggr_pkts_recv := 0 \<rparr>)
            in if length (batch_q s1) = num_concurrent
               then Return (emit [LogError FellBehind] s1)
               else (case launch cfg e s1 of
                       Continue s2 \<Rightarrow> store_ptr cfg burst pkt_idx s2
                     | r \<Rightarrow> r))
      else store_ptr cfg burst pkt_idx s)"

text \<open>The packet loop over the indices still to come.\<close>

fun pkt_loop :: "config \<Rightarrow> env \<Rightarrow> AdvNetBurstParams \<Rightarrow> nat list \<Rightarrow> state \<Rightarrow> ctl" where
  "pkt_loop cfg e burst [] s = Continue s"
| "pkt_loop cfg e burst (pkt_idx # idxs) s =
     (case process_pkt cfg e burst pkt_idx s of
        Continue s' \<Rightarrow> pkt_loop cfg e burst idxs s'
      | r \<Rightarrow> r)"

text \<open>
  \<^verbatim>\<open>compute\<close>, given what \<^verbatim>\<open>op_input.receive\<close> returned. \<open>Inr\<close> is a return
  to the scheduler, \<open>Inl\<close> the end of the process.
\<close>

definition compute :: "config \<Rightarrow> env \<Rightarrow> AdvNetBurstParams option \<Rightarrow> state \<Rightarrow> fault + state" where
  "compute cfg e burst_opt s =
     (let s1 = free_batch_queue e s
      in case burst_opt of
           None \<Rightarrow> Inr (emit [LogError NoBurstInput] s1)
         | Some burst \<Rightarrow>
             if adv_net_get_q_id burst = 0 then Inr s1
             else (let s2 = s1\<lparr> ttl_pkts_recv := ttl_pkts_recv s1 + int (adv_net_get_num_pkts burst) \<rparr>
                   in case pkt_loop cfg e burst [0..<adv_net_get_num_pkts burst] s2 of
                        Continue s3 \<Rightarrow>
                          Inr (s3\<lparr> ttl_bytes_recv := ttl_bytes_recv s3 + adv_net_get_burst_tot_byte burst \<rparr>)
                      | Return s3 \<Rightarrow> Inr s3
                      | Abort f \<Rightarrow> Inl f))"

text \<open>Successive calls of \<^verbatim>\<open>compute\<close>, one per input, until the process ends.\<close>

fun run :: "config \<Rightarrow> env \<Rightarrow> AdvNetBurstParams option list \<Rightarrow> state \<Rightarrow> fault + state" where
  "run cfg e [] s = Inr s"
| "run cfg e (inp # inps) s =
     (case compute cfg e inp s of
        Inl f \<Rightarrow> Inl f
      | Inr s' \<Rightarrow> run cfg e inps s')"

text \<open>The kernel launches of a trace: slot and pointer table of each, in order.\<close>

fun launches :: "effect list \<Rightarrow> (nat \<times> nat list) list" where
  "launches [] = []"
| "launches (KernelLaunch dst tbl payload n stream # es) = (stream, tbl) # launches es"
| "launches (_ # es) = launches es"

subsection \<open>Notions the properties are stated with\<close>

text \<open>
  How often the trace reports \<^verbatim>\<open>"Fell behind in processing on GPU!"\<close>.
\<close>

definition saturation_reports :: "state \<Rightarrow> nat" where
  "saturation_reports s = length (filter (\<lambda>x. x = LogError FellBehind) (trace s))"

text \<open>
  The payload pointers of a burst in packet order, as line 172 computes them: the packet
  pointer plus \<open>header_size\<close>.
\<close>

definition payloads :: "config \<Rightarrow> AdvNetBurstParams \<Rightarrow> nat list" where
  "payloads cfg burst =
     map (\<lambda>i. adv_net_get_pkt_ptr burst i + unat (header_size cfg)) [0..<adv_net_get_num_pkts burst]"

text \<open>
  The payload pointers of all data-queue packets of a sequence of inputs, in arrival order.
  A missing input and a burst on queue 0 contribute nothing.
\<close>

fun arrivals :: "config \<Rightarrow> AdvNetBurstParams option list \<Rightarrow> nat list" where
  "arrivals cfg [] = []"
| "arrivals cfg (None # inps) = arrivals cfg inps"
| "arrivals cfg (Some burst # inps) =
     (if adv_net_get_q_id burst = 0 then [] else payloads cfg burst) @ arrivals cfg inps"

text \<open>
  The states the operator passes through: the state after \<^verbatim>\<open>initialize\<close>, closed
  under a reclaim pass, the counting of a burst's packets, one pass through the body of the
  packet loop (whether it goes on or returns), and a whole call of \<^verbatim>\<open>compute\<close>,
  each with any burst and any answers of the device.
\<close>

inductive reachable :: "config \<Rightarrow> state \<Rightarrow> bool" for cfg :: config where
  start: "reachable cfg (initialize cfg mem)"
| reclaimed: "reachable cfg s \<Longrightarrow> reachable cfg (free_batch_queue e s)"
| counted: "reachable cfg s \<Longrightarrow>
     reachable cfg (s\<lparr> ttl_pkts_recv := ttl_pkts_recv s + int (adv_net_get_num_pkts burst) \<rparr>)"
| stored: "reachable cfg s \<Longrightarrow> process_pkt cfg e burst pkt_idx s = Continue s' \<Longrightarrow> reachable cfg s'"
| saturated: "reachable cfg s \<Longrightarrow> process_pkt cfg e burst pkt_idx s = Return s' \<Longrightarrow> reachable cfg s'"
| returned: "reachable cfg s \<Longrightarrow> compute cfg e burst_opt s = Inr s' \<Longrightarrow> reachable cfg s'"

code_pred reachable .

text \<open>
  A batch record that holds no burst: the count is zero and all \<open>MAX_ANO_BURSTS\<close>
  pointers are null.
\<close>

definition no_bursts :: "BatchAggregationParams \<Rightarrow> bool" where
  "no_bursts r \<longleftrightarrow> num_bursts r = 0 \<and> bursts r = replicate MAX_ANO_BURSTS None"

text \<open>
  The invariant of the queue of batches and of the record under construction.
\<close>

definition tracker_inv :: "state \<Rightarrow> bool" where
  "tracker_inv s \<longleftrightarrow>
     length (batch_q s) \<le> num_concurrent \<and> cur_batch_idx s < num_concurrent \<and>
     no_bursts (cur_batch s) \<and>
     (\<forall>r\<in>set (batch_q s). no_bursts r \<and> (\<exists>n<num_concurrent. evt r = events n))"

text \<open>
  The round robin of the slots: the queue holds the events of the slots launched last, the
  youngest being the slot before the current one.
\<close>

definition ring_inv :: "state \<Rightarrow> bool" where
  "ring_inv s \<longleftrightarrow>
     cur_batch_idx s < num_concurrent \<and> length (batch_q s) \<le> num_concurrent \<and>
     map evt (batch_q s) =
       map (\<lambda>i. events ((cur_batch_idx s + num_concurrent - length (batch_q s) + i) mod num_concurrent))
           [0..<length (batch_q s)]"

text \<open>
  The queue against the trace: the records in the queue are those of the launches made
  last, in order, each with the event of the slot its launch went to.
\<close>

definition queue_matches_launches :: "state \<Rightarrow> bool" where
  "queue_matches_launches s \<longleftrightarrow>
     length (batch_q s) \<le> length (launches (trace s)) \<and>
     map evt (batch_q s) =
       map (\<lambda>l. events (fst l))
           (drop (length (launches (trace s)) - length (batch_q s)) (launches (trace s)))"

text \<open>
  How the queue of \<open>s'\<close> comes from that of \<open>s\<close>: some records have left at the
  front, each after a poll of its event that answered complete, and records were appended
  at the back; the trace has only grown.
\<close>

definition kept_until_polled :: "state \<Rightarrow> state \<Rightarrow> bool" where
  "kept_until_polled s s' \<longleftrightarrow>
     (\<exists>k\<le>length (batch_q s). \<exists>new ext.
        batch_q s' = drop k (batch_q s) @ new \<and> trace s' = trace s @ ext \<and>
        (\<forall>i<k. EventQuery (evt (batch_q s ! i)) True \<in> set ext))"

text \<open>
  The invariant of batching, relative to the payload pointers \<open>seen\<close> so far and the
  number \<open>L\<close> of launches so far: launch \<open>k\<close> went to slot \<open>k mod num_concurrent\<close>
  with the pointers \<open>k * B, \<dots>, k * B + B - 1\<close>, and the table of the current slot
  holds the pointers after those.
\<close>

definition batched :: "nat \<Rightarrow> nat list \<Rightarrow> nat \<Rightarrow> state \<Rightarrow> bool" where
  "batched B seen L s \<longleftrightarrow>
     length seen = L * B + aggr_pkts_recv s \<and> aggr_pkts_recv s \<le> B \<and>
     (aggr_pkts_recv s = 0 \<longrightarrow> L = 0) \<and>
     launches (trace s) = map (\<lambda>k. (k mod num_concurrent, take B (drop (k * B) seen))) [0..<L] \<and>
     map (h_dev_ptrs s (cur_batch_idx s)) [0..<aggr_pkts_recv s] = drop (L * B) seen \<and>
     cur_batch_idx s = L mod num_concurrent"

subsection \<open>Concrete inputs\<close>

text \<open>
  The default packet sizes of the operator with a given batch size and a given value of
  \<^verbatim>\<open>DEBUG_CUDA_TIMES == 1\<close>.
\<close>

definition example_config :: "32 word \<Rightarrow> bool \<Rightarrow> config" where
  "example_config b d =
     \<lparr> batch_size = b, max_packet_size = 9100, header_size = 42, debug_cuda_times = d \<rparr>"

text \<open>
  Three devices: one whose events are never complete when polled, one whose events are
  always complete, and one on which only \<^verbatim>\<open>events_[0]\<close> is complete. None reports a
  CUDA error.
\<close>

definition never_done :: env where
  "never_done = \<lparr> event_done = (\<lambda>t ev. False), launch_ok = (\<lambda>t. True) \<rparr>"

definition always_done :: env where
  "always_done = \<lparr> event_done = (\<lambda>t ev. True), launch_ok = (\<lambda>t. True) \<rparr>"

definition first_done :: env where
  "first_done = \<lparr> event_done = (\<lambda>t ev. ev = events 0), launch_ok = (\<lambda>t. True) \<rparr>"

text \<open>
  A burst of \<open>n\<close> packets of 64 bytes at \<open>base\<close>, \<open>base + 64\<close>, \<open>\<dots>\<close> on the
  data queue 1, and the same on the control queue 0.
\<close>

definition data_burst :: "nat \<Rightarrow> nat \<Rightarrow> AdvNetBurstParams" where
  "data_burst n base =
     \<lparr> q_id = 1, num_pkts = n, tot_byte = 64 * int n, pkt_ptr = (\<lambda>i. base + 64 * i) \<rparr>"

definition control_burst :: "nat \<Rightarrow> nat \<Rightarrow> AdvNetBurstParams" where
  "control_burst n base =
     \<lparr> q_id = 0, num_pkts = n, tot_byte = 64 * int n, pkt_ptr = (\<lambda>i. base + 64 * i) \<rparr>"

text \<open>
  Pinned tables filled with zeros.
\<close>

definition blank :: "nat \<Rightarrow> nat \<Rightarrow> nat" where
  "blank = (\<lambda>n i. 0)"

text \<open>
  The record the operator pushes for a launch on slot \<open>n\<close>.
\<close>

definition slot_record :: "nat \<Rightarrow> BatchAggregationParams" where
  "slot_record n = \<lparr> bursts = replicate MAX_ANO_BURSTS None, num_bursts = 0, evt = events n \<rparr>"

text \<open>
  A fresh operator with three batches in the queue.
\<close>

definition three_in_flight :: state where
  "three_in_flight =
     (initialize (example_config 1 False) blank)\<lparr> batch_q := [slot_record 0, slot_record 1, slot_record 2] \<rparr>"

text \<open>
  The operator with batch size 1 after one burst of five data packets, and after one burst
  of six, on the device whose events are never complete.
\<close>

definition four_unreclaimed :: state where
  "four_unreclaimed =
     projr (compute (example_config 1 False) never_done (Some (data_burst 5 1000))
              (initialize (example_config 1 False) blank))"

definition fell_behind :: state where
  "fell_behind =
     projr (compute (example_config 1 False) never_done (Some (data_burst 6 1000))
              (initialize (example_config 1 False) blank))"

text \<open>
  The operator with batch size 2 after one burst of two data packets: the table of slot 0
  is full and nothing has been launched.
\<close>

definition full_table :: state where
  "full_table =
     projr (compute (example_config 2 False) never_done (Some (data_burst 2 1000))
              (initialize (example_config 2 False) blank))"

text \<open>
  A data burst of three packets, a call without input, a control burst, a data burst of two
  packets.
\<close>

definition mixed_inputs :: "AdvNetBurstParams option list" where
  "mixed_inputs = [Some (data_burst 3 1000), None, Some (control_burst 2 50), Some (data_burst 2 2000)]"

section \<open>Auxiliary facts\<close>

text \<open>
  \<open>free_batch_queue\<close> unfolded once, by the shape of the queue.
\<close>

lemma free_batch_queue_Nil:
  "batch_q s = [] \<Longrightarrow> free_batch_queue e s = s"
  by (simp add: free_batch_queue.simps)

lemma free_batch_queue_Cons:
  "batch_q s = b # rest \<Longrightarrow> free_batch_queue e s =
     (if event_done e (clock s) (evt b)
      then free_batch_queue e
             (emit [EventQuery (evt b) True] (s\<lparr> clock := clock s + 1 \<rparr>)\<lparr> batch_q := rest \<rparr>)
      else emit [EventQuery (evt b) False] (s\<lparr> clock := clock s + 1 \<rparr>))"
  by (subst free_batch_queue.simps) (simp add: Let_def)

lemma launches_append: "launches (xs @ ys) = launches xs @ launches ys"
  by (induction xs rule: launches.induct) simp_all

text \<open>
  What a reclaim pass leaves alone.
\<close>

lemma free_batch_queue_frame:
  "cur_batch (free_batch_queue e s) = cur_batch s \<and>
   cur_batch_idx (free_batch_queue e s) = cur_batch_idx s \<and>
   ttl_bytes_recv (free_batch_queue e s) = ttl_bytes_recv s \<and>
   ttl_pkts_recv (free_batch_queue e s) = ttl_pkts_recv s \<and>
   aggr_pkts_recv (free_batch_queue e s) = aggr_pkts_recv s \<and>
   nom_payload_size (free_batch_queue e s) = nom_payload_size s \<and>
   h_dev_ptrs (free_batch_queue e s) = h_dev_ptrs s \<and>
   launches (trace (free_batch_queue e s)) = launches (trace s) \<and>
   saturation_reports (free_batch_queue e s) = saturation_reports s"
proof (induction e s rule: free_batch_queue.induct)
  case (1 e s)
  show ?case
  proof (cases "batch_q s")
    case Nil
    then show ?thesis by (simp add: free_batch_queue_Nil)
  next
    case (Cons b rest)
    show ?thesis
    proof (cases "event_done e (clock s) (evt b)")
      case True
      with Cons 1 show ?thesis
        by (simp add: free_batch_queue_Cons emit_def launches_append saturation_reports_def)
    next
      case False
      with Cons show ?thesis
        by (simp add: free_batch_queue_Cons emit_def launches_append saturation_reports_def)
    qed
  qed
qed

text \<open>
  A reclaim pass removes the first \<open>k\<close> records, each polled as complete, and polls
  the record after them, if there is one, as incomplete.
\<close>

lemma free_batch_queue_drop:
  "\<exists>k\<le>length (batch_q s).
       batch_q (free_batch_queue e s) = drop k (batch_q s)
     \<and> (\<forall>i<k. event_done e (clock s + i) (evt (batch_q s ! i)))
     \<and> (k < length (batch_q s) \<longrightarrow> \<not> event_done e (clock s + k) (evt (batch_q s ! k)))
     \<and> trace (free_batch_queue e s) =
         trace s @ map (\<lambda>i. EventQuery (evt (batch_q s ! i)) (i < k))
                       [0..<min (Suc k) (length (batch_q s))]"
proof (induction e s rule: free_batch_queue.induct)
  case (1 e s)
  show ?case
  proof (cases "batch_q s")
    case Nil
    then show ?thesis by (simp add: free_batch_queue_Nil)
  next
    case (Cons b rest)
    show ?thesis
    proof (cases "event_done e (clock s) (evt b)")
      case False
      with Cons have "free_batch_queue e s = emit [EventQuery (evt b) False] (s\<lparr> clock := clock s + 1 \<rparr>)"
        by (simp add: free_batch_queue_Cons)
      with Cons False show ?thesis
        by (intro exI[of _ 0]) (simp add: emit_def)
    next
      case True
      let ?s1 = "emit [EventQuery (evt b) True] (s\<lparr> clock := clock s + 1 \<rparr>)\<lparr> batch_q := rest \<rparr>"
      have eq: "free_batch_queue e s = free_batch_queue e ?s1"
        using Cons True by (simp add: free_batch_queue_Cons)
      have s1eq: "?s1 = emit [EventQuery (evt b) (event_done e (clock s) (evt b))] (s\<lparr> clock := clock s + 1 \<rparr>)\<lparr> batch_q := rest \<rparr>"
        using True by simp
      have "\<exists>k\<le>length (batch_q ?s1).
         batch_q (free_batch_queue e ?s1) = drop k (batch_q ?s1)
       \<and> (\<forall>i<k. event_done e (clock ?s1 + i) (evt (batch_q ?s1 ! i)))
       \<and> (k < length (batch_q ?s1) \<longrightarrow> \<not> event_done e (clock ?s1 + k) (evt (batch_q ?s1 ! k)))
       \<and> trace (free_batch_queue e ?s1) =
           trace ?s1 @ map (\<lambda>i. EventQuery (evt (batch_q ?s1 ! i)) (i < k))
                         [0..<min (Suc k) (length (batch_q ?s1))]"
        unfolding s1eq by (rule 1[OF Cons refl refl True])
      then obtain k where k: "k \<le> length rest"
        "batch_q (free_batch_queue e ?s1) = drop k rest"
        "\<forall>i<k. event_done e (Suc (clock s) + i) (evt (rest ! i))"
        "k < length rest \<longrightarrow> \<not> event_done e (Suc (clock s) + k) (evt (rest ! k))"
        "trace (free_batch_queue e ?s1) =
           trace s @ EventQuery (evt b) True # map (\<lambda>i. EventQuery (evt (rest ! i)) (i < k))
                         [0..<min (Suc k) (length rest)]"
        by (auto simp: emit_def)
      have a: "\<forall>i<Suc k. event_done e (clock s + i) (evt (batch_q s ! i))"
        using k(3) True Cons by (auto simp: less_Suc_eq_0_disj)
      have tr: "map (\<lambda>i. EventQuery (evt (batch_q s ! i)) (i < Suc k))
                     [0..<min (Suc (Suc k)) (length (batch_q s))]
           = EventQuery (evt b) True # map (\<lambda>i. EventQuery (evt (rest ! i)) (i < k))
                         [0..<min (Suc k) (length rest)]"
        using Cons by (simp add: upt_rec[of 0] map_Suc_upt[symmetric] del: upt_Suc)
      show ?thesis
        apply (rule exI[of _ "Suc k"])
        using k a tr Cons eq by simp
    qed
  qed
qed

text \<open>
  The effect of a launch that the device accepts.
\<close>

lemma launch_Continue:
  assumes "launch cfg e s = Continue s'"
  shows "cur_batch_idx s' = (cur_batch_idx s + 1) mod num_concurrent"
    and "batch_q s' = batch_q s @ [(cur_batch s)\<lparr> evt := events (cur_batch_idx s) \<rparr>]"
    and "cur_batch s' = (cur_batch s)\<lparr> evt := events (cur_batch_idx s), num_bursts := 0 \<rparr>"
    and "ttl_bytes_recv s' = ttl_bytes_recv s"
    and "ttl_pkts_recv s' = ttl_pkts_recv s"
    and "aggr_pkts_recv s' = aggr_pkts_recv s"
    and "nom_payload_size s' = nom_payload_size s"
    and "h_dev_ptrs s' = h_dev_ptrs s"
    and "launches (trace s') = launches (trace s) @
           [(cur_batch_idx s, map (h_dev_ptrs s (cur_batch_idx s)) [0..<unat (batch_size cfg)])]"
    and "saturation_reports s' = saturation_reports s"
    and "launch_ok e (clock s)"
  using assms
  by (auto simp: launch_def Let_def emit_def launches_append saturation_reports_def
           split: if_splits)

lemma launch_cases:
  "(\<exists>s'. launch cfg e s = Continue s') \<or> launch cfg e s = Abort CudaFault"
  by (simp add: launch_def Let_def)

lemma launch_ok_Continue:
  "launch_ok e (clock s) \<Longrightarrow> \<exists>s'. launch cfg e s = Continue s'"
  by (simp add: launch_def Let_def emit_def)

lemma store_ptr_Continue:
  assumes "store_ptr cfg burst pkt_idx s = Continue s'"
  shows "s' = s\<lparr> h_dev_ptrs := (h_dev_ptrs s)
                   (cur_batch_idx s := (h_dev_ptrs s (cur_batch_idx s))
                      (aggr_pkts_recv s := adv_net_get_pkt_ptr burst pkt_idx + unat (header_size cfg))),
                 aggr_pkts_recv := aggr_pkts_recv s + 1 \<rparr>"
    and "aggr_pkts_recv s < unat (batch_size cfg)"
  using assms by (auto simp: store_ptr_def Let_def split: if_splits)

lemma store_ptr_not_Return: "store_ptr cfg burst pkt_idx s \<noteq> Return s'"
  by (simp add: store_ptr_def Let_def)

lemma launch_not_Return: "launch cfg e s \<noteq> Return s'"
  by (simp add: launch_def Let_def)

text \<open>
  The two ways the loop body hands a state on.
\<close>

lemma process_pkt_Return:
  assumes "process_pkt cfg e burst pkt_idx s = Return s'"
  shows "unat (batch_size cfg) \<le> aggr_pkts_recv s"
    and "length (batch_q (free_batch_queue e (s\<lparr> aggr_pkts_recv := 0 \<rparr>))) = num_concurrent"
    and "s' = emit [LogError FellBehind] (free_batch_queue e (s\<lparr> aggr_pkts_recv := 0 \<rparr>))"
  using assms
  by (auto simp: process_pkt_def Let_def store_ptr_not_Return launch_not_Return
           split: if_splits ctl.splits)

lemma process_pkt_Continue:
  assumes "process_pkt cfg e burst pkt_idx s = Continue s'"
  shows "(aggr_pkts_recv s < unat (batch_size cfg) \<and> store_ptr cfg burst pkt_idx s = Continue s')
       \<or> (unat (batch_size cfg) \<le> aggr_pkts_recv s
          \<and> length (batch_q (free_batch_queue e (s\<lparr> aggr_pkts_recv := 0 \<rparr>))) \<noteq> num_concurrent
          \<and> (\<exists>s2. launch cfg e (free_batch_queue e (s\<lparr> aggr_pkts_recv := 0 \<rparr>)) = Continue s2
                 \<and> store_ptr cfg burst pkt_idx s2 = Continue s'))"
  using assms
  by (auto simp: process_pkt_def Let_def split: if_splits ctl.splits)

lemma process_pkt_totals:
  assumes "process_pkt cfg e burst pkt_idx s = Continue s'"
  shows "ttl_bytes_recv s' = ttl_bytes_recv s \<and> ttl_pkts_recv s' = ttl_pkts_recv s
       \<and> saturation_reports s' = saturation_reports s"
proof -
  let ?s1 = "free_batch_queue e (s\<lparr> aggr_pkts_recv := 0 \<rparr>)"
  from process_pkt_Continue[OF assms] show ?thesis
  proof
    assume "aggr_pkts_recv s < unat (batch_size cfg) \<and> store_ptr cfg burst pkt_idx s = Continue s'"
    then show ?thesis
      by (auto dest!: store_ptr_Continue(1) simp: saturation_reports_def)
  next
    assume "unat (batch_size cfg) \<le> aggr_pkts_recv s
          \<and> length (batch_q ?s1) \<noteq> num_concurrent
          \<and> (\<exists>s2. launch cfg e ?s1 = Continue s2 \<and> store_ptr cfg burst pkt_idx s2 = Continue s')"
    then obtain s2 where l: "launch cfg e ?s1 = Continue s2"
      and st: "store_ptr cfg burst pkt_idx s2 = Continue s'" by blast
    have "ttl_bytes_recv s2 = ttl_bytes_recv s" "ttl_pkts_recv s2 = ttl_pkts_recv s"
         "saturation_reports s2 = saturation_reports s"
      using launch_Continue(4,5,10)[OF l] free_batch_queue_frame[of e "s\<lparr> aggr_pkts_recv := 0 \<rparr>"]
      by (simp_all add: saturation_reports_def)
    then show ?thesis
      using store_ptr_Continue(1)[OF st] by (simp add: saturation_reports_def)
  qed
qed

lemma process_pkt_Return_totals:
  assumes "process_pkt cfg e burst pkt_idx s = Return s'"
  shows "ttl_bytes_recv s' = ttl_bytes_recv s \<and> ttl_pkts_recv s' = ttl_pkts_recv s
       \<and> saturation_reports s' = Suc (saturation_reports s)"
  using process_pkt_Return(3)[OF assms] free_batch_queue_frame[of e "s\<lparr> aggr_pkts_recv := 0 \<rparr>"]
  by (simp add: emit_def saturation_reports_def)

lemma pkt_loop_totals:
  "pkt_loop cfg e burst idxs s = Continue s' \<Longrightarrow>
     ttl_bytes_recv s' = ttl_bytes_recv s \<and> ttl_pkts_recv s' = ttl_pkts_recv s
     \<and> saturation_reports s' = saturation_reports s"
  "pkt_loop cfg e burst idxs s = Return s' \<Longrightarrow>
     ttl_bytes_recv s' = ttl_bytes_recv s \<and> ttl_pkts_recv s' = ttl_pkts_recv s
     \<and> saturation_reports s' = Suc (saturation_reports s)"
proof (induction idxs arbitrary: s)
  case Nil
  { case 1 then show ?case by simp }
  { case 2 then show ?case by simp }
next
  case (Cons i idxs)
  { case 1
    then obtain s1 where p: "process_pkt cfg e burst i s = Continue s1"
      and l: "pkt_loop cfg e burst idxs s1 = Continue s'"
      by (auto split: ctl.splits)
    from process_pkt_totals[OF p] Cons.IH(1)[OF l] show ?case by simp }
  { case 2
    show ?case
    proof (cases "process_pkt cfg e burst i s")
      case (Continue s1)
      with 2 have l: "pkt_loop cfg e burst idxs s1 = Return s'" by simp
      from process_pkt_totals[OF Continue] Cons.IH(2)[OF l] show ?thesis by simp
    next
      case (Return s1)
      with 2 have "s1 = s'" by simp
      with process_pkt_Return_totals[OF Return] show ?thesis by simp
    next
      case (Abort f)
      with 2 show ?thesis by simp
    qed }
qed

text \<open>
  The invariant of the queue holds initially and is kept by every operation.
\<close>

lemma tracker_inv_initialize: "tracker_inv (initialize cfg mem)"
  by (simp add: tracker_inv_def initialize_def no_bursts_def num_concurrent_def)

lemma tracker_inv_free_batch_queue:
  assumes "tracker_inv s" shows "tracker_inv (free_batch_queue e s)"
proof -
  obtain k where "batch_q (free_batch_queue e s) = drop k (batch_q s)"
    using free_batch_queue_drop[of s e] by blast
  then have "length (batch_q (free_batch_queue e s)) \<le> length (batch_q s)"
    "set (batch_q (free_batch_queue e s)) \<subseteq> set (batch_q s)"
    by (simp_all add: set_drop_subset)
  with assms free_batch_queue_frame[of e s] show ?thesis
    unfolding tracker_inv_def by auto
qed

lemma tracker_inv_aggr [simp]:
  "tracker_inv (s\<lparr> aggr_pkts_recv := n \<rparr>) = tracker_inv s"
  "tracker_inv (s\<lparr> ttl_pkts_recv := p \<rparr>) = tracker_inv s"
  "tracker_inv (s\<lparr> ttl_bytes_recv := b \<rparr>) = tracker_inv s"
  "tracker_inv (emit es s) = tracker_inv s"
  by (simp_all add: tracker_inv_def emit_def)

lemma tracker_inv_store_ptr:
  "tracker_inv s \<Longrightarrow> store_ptr cfg burst pkt_idx s = Continue s' \<Longrightarrow> tracker_inv s'"
  by (auto dest!: store_ptr_Continue(1) simp: tracker_inv_def)

lemma tracker_inv_launch:
  assumes "tracker_inv s" "length (batch_q s) \<noteq> num_concurrent" "launch cfg e s = Continue s'"
  shows "tracker_inv s'"
  using assms(1,2) launch_Continue(1,2,3)[OF assms(3)]
  by (auto simp: tracker_inv_def no_bursts_def)

lemma tracker_inv_process_pkt:
  assumes "tracker_inv s"
  shows "process_pkt cfg e burst pkt_idx s = Continue s' \<Longrightarrow> tracker_inv s'"
    and "process_pkt cfg e burst pkt_idx s = Return s' \<Longrightarrow> tracker_inv s'"
proof -
  have f: "tracker_inv (free_batch_queue e (s\<lparr> aggr_pkts_recv := 0 \<rparr>))"
    using assms by (simp add: tracker_inv_free_batch_queue)
  { assume "process_pkt cfg e burst pkt_idx s = Continue s'"
    from process_pkt_Continue[OF this] show "tracker_inv s'"
      using assms f by (auto intro: tracker_inv_store_ptr tracker_inv_launch) }
  { assume "process_pkt cfg e burst pkt_idx s = Return s'"
    from process_pkt_Return(3)[OF this] f show "tracker_inv s'" by simp }
qed

lemma tracker_inv_pkt_loop:
  "tracker_inv s \<Longrightarrow> pkt_loop cfg e burst idxs s = Continue s' \<or> pkt_loop cfg e burst idxs s = Return s'
     \<Longrightarrow> tracker_inv s'"
proof (induction idxs arbitrary: s)
  case Nil
  then show ?case by simp
next
  case (Cons i idxs)
  show ?case
  proof (cases "process_pkt cfg e burst i s")
    case (Continue s1)
    with Cons.prems tracker_inv_process_pkt(1)[OF Cons.prems(1) Continue] Cons.IH[of s1]
    show ?thesis by simp
  next
    case (Return s1)
    with Cons.prems tracker_inv_process_pkt(2)[OF Cons.prems(1) Return] show ?thesis by simp
  next
    case (Abort f)
    with Cons.prems show ?thesis by simp
  qed
qed

lemma tracker_inv_compute:
  assumes "tracker_inv s" "compute cfg e burst_opt s = Inr s'"
  shows "tracker_inv s'"
proof (cases burst_opt)
  case None
  with assms show ?thesis
    by (auto simp: compute_def Let_def tracker_inv_free_batch_queue)
next
  case (Some burst)
  let ?s1 = "free_batch_queue e s"
  let ?s2 = "?s1\<lparr> ttl_pkts_recv := ttl_pkts_recv ?s1 + int (adv_net_get_num_pkts burst) \<rparr>"
  have i2: "tracker_inv ?s2" using assms(1) by (simp add: tracker_inv_free_batch_queue)
  show ?thesis
  proof (cases "adv_net_get_q_id burst = 0")
    case True
    with Some assms show ?thesis
      by (auto simp: compute_def Let_def tracker_inv_free_batch_queue)
  next
    case False
    show ?thesis
    proof (cases "pkt_loop cfg e burst [0..<adv_net_get_num_pkts burst] ?s2")
      case (Continue s3)
      then have "tracker_inv s3" using tracker_inv_pkt_loop[OF i2] by blast
      with Continue Some False assms(2) show ?thesis by (auto simp: compute_def Let_def)
    next
      case (Return s3)
      then have "tracker_inv s3" using tracker_inv_pkt_loop[OF i2] by blast
      with Return Some False assms(2) show ?thesis by (auto simp: compute_def Let_def)
    next
      case (Abort f)
      with Some False assms(2) show ?thesis by (simp add: compute_def Let_def)
    qed
  qed
qed

lemma reachable_tracker_inv: "reachable cfg s \<Longrightarrow> tracker_inv s"
proof (induction rule: reachable.induct)
  case (start mem)
  show ?case by (rule tracker_inv_initialize)
next
  case (reclaimed s e)
  then show ?case by (simp add: tracker_inv_free_batch_queue)
next
  case (counted s burst)
  then show ?case by simp
next
  case (stored s e burst pkt_idx s')
  then show ?case by (auto intro: tracker_inv_process_pkt(1))
next
  case (saturated s e burst pkt_idx s')
  then show ?case by (auto intro: tracker_inv_process_pkt(2))
next
  case (returned s e burst_opt s')
  then show ?case by (auto intro: tracker_inv_compute)
qed

text \<open>
  Batching: the full chunks of a list do not change when the list grows at its end.
\<close>

lemma chunk_append:
  assumes "k < L" "L * B \<le> length seen"
  shows "take B (drop (k * B) (seen @ ys)) = take B (drop (k * B) seen)"
proof -
  have "Suc k * B \<le> L * B" using assms(1) by (intro mult_le_mono1) simp
  then have "k * B + B \<le> length seen" using assms(2) by simp
  then show ?thesis by simp
qed

lemma chunks_append:
  assumes "L * B \<le> length seen"
  shows "map (\<lambda>k. (k mod n, take B (drop (k * B) (seen @ ys)))) [0..<L]
       = map (\<lambda>k. (k mod n, take B (drop (k * B) seen))) [0..<L]"
proof (rule map_cong[OF refl])
  fix k assume "k \<in> set [0..<L]"
  then have "k < L" by simp
  from chunk_append[OF this assms, of ys]
  show "(k mod n, take B (drop (k * B) (seen @ ys))) = (k mod n, take B (drop (k * B) seen))"
    by (simp only:)
qed

lemma batched_free_batch_queue:
  "batched B seen L (free_batch_queue e s) = batched B seen L s"
  using free_batch_queue_frame[of e s] by (simp add: batched_def)

lemma batched_totals [simp]:
  "batched B seen L (s\<lparr> ttl_pkts_recv := p \<rparr>) = batched B seen L s"
  "batched B seen L (s\<lparr> ttl_bytes_recv := b \<rparr>) = batched B seen L s"
  by (simp_all add: batched_def)

text \<open>
  Both branches of the loop body keep the invariant of batching.
\<close>

lemma batched_store:
  assumes "batched B seen L s" "B = unat (batch_size cfg)"
    and "aggr_pkts_recv s < B"
    and "store_ptr cfg burst pkt_idx s = Continue s'"
  shows "batched B (seen @ [adv_net_get_pkt_ptr burst pkt_idx + unat (header_size cfg)]) L s'"
proof -
  let ?p = "adv_net_get_pkt_ptr burst pkt_idx + unat (header_size cfg)"
  let ?c = "cur_batch_idx s" and ?a = "aggr_pkts_recv s"
  have s': "s' = s\<lparr> h_dev_ptrs := (h_dev_ptrs s)(?c := (h_dev_ptrs s ?c)(?a := ?p)),
                   aggr_pkts_recv := ?a + 1 \<rparr>"
    using store_ptr_Continue(1)[OF assms(4)] .
  have len: "length seen = L * B + ?a" and le: "L * B \<le> length seen"
    using assms(1) by (simp_all add: batched_def)
  have tbl: "map (h_dev_ptrs s ?c) [0..<?a] = drop (L * B) seen"
    using assms(1) unfolding batched_def by blast
  have "map (h_dev_ptrs s' (cur_batch_idx s')) [0..<aggr_pkts_recv s']
      = map (h_dev_ptrs s ?c) [0..<?a] @ [?p]"
    by (simp add: s')
  also have "\<dots> = drop (L * B) (seen @ [?p])" using tbl le by simp
  finally have t': "map (h_dev_ptrs s' (cur_batch_idx s')) [0..<aggr_pkts_recv s']
      = drop (L * B) (seen @ [?p])" .
  have ls: "launches (trace s)
      = map (\<lambda>k. (k mod num_concurrent, take B (drop (k * B) seen))) [0..<L]"
    using assms(1) unfolding batched_def by blast
  have "launches (trace s') = launches (trace s)" by (simp add: s')
  also note ls
  also note chunks_append[OF le, of num_concurrent "[?p]", symmetric]
  finally have l': "launches (trace s')
      = map (\<lambda>k. (k mod num_concurrent, take B (drop (k * B) (seen @ [?p])))) [0..<L]" .
  show ?thesis
    unfolding batched_def
    using t' l' len assms(1,3) by (simp add: s' batched_def)
qed

lemma batched_launch:
  assumes "batched B seen L s" "B = unat (batch_size cfg)" "0 < B"
    and "B \<le> aggr_pkts_recv s"
    and "launch cfg e (free_batch_queue e (s\<lparr> aggr_pkts_recv := 0 \<rparr>)) = Continue s2"
    and "store_ptr cfg burst pkt_idx s2 = Continue s'"
  shows "batched B (seen @ [adv_net_get_pkt_ptr burst pkt_idx + unat (header_size cfg)]) (Suc L) s'"
proof -
  let ?p = "adv_net_get_pkt_ptr burst pkt_idx + unat (header_size cfg)"
  let ?s1 = "free_batch_queue e (s\<lparr> aggr_pkts_recv := 0 \<rparr>)"
  let ?c = "cur_batch_idx s"
  have a: "aggr_pkts_recv s = B" using assms(1,4) by (simp add: batched_def)
  have len: "length seen = L * B + B" using assms(1) a by (simp add: batched_def)
  have le: "L * B \<le> length seen" using len by simp
  have "map (h_dev_ptrs s ?c) [0..<aggr_pkts_recv s] = drop (L * B) seen"
    using assms(1) unfolding batched_def by blast
  then have tbl: "map (h_dev_ptrs s ?c) [0..<B] = drop (L * B) seen"
    by (simp only: a)
  have c: "?c = L mod num_concurrent" using assms(1) by (simp add: batched_def)
  have s1: "cur_batch_idx ?s1 = ?c" "h_dev_ptrs ?s1 = h_dev_ptrs s" "aggr_pkts_recv ?s1 = 0"
           "launches (trace ?s1) = launches (trace s)"
    using free_batch_queue_frame[of e "s\<lparr> aggr_pkts_recv := 0 \<rparr>"] by simp_all
  have s2: "cur_batch_idx s2 = Suc L mod num_concurrent" "h_dev_ptrs s2 = h_dev_ptrs s"
           "aggr_pkts_recv s2 = 0"
           "launches (trace s2) = launches (trace s) @ [(?c, map (h_dev_ptrs s ?c) [0..<B])]"
    using launch_Continue(1,8,6,9)[OF assms(5)] s1 c assms(2) by (simp_all add: mod_Suc_eq)
  let ?c2 = "cur_batch_idx s2"
  have s': "s' = s2\<lparr> h_dev_ptrs := (h_dev_ptrs s2)(?c2 := (h_dev_ptrs s2 ?c2)(0 := ?p)),
                   aggr_pkts_recv := 1 \<rparr>"
    using store_ptr_Continue(1)[OF assms(6)] s2(3) by simp
  have last: "take B (drop (L * B) (seen @ [?p])) = map (h_dev_ptrs s ?c) [0..<B]"
    using tbl le len by simp
  have ls: "launches (trace s)
      = map (\<lambda>k. (k mod num_concurrent, take B (drop (k * B) seen))) [0..<L]"
    using assms(1) unfolding batched_def by blast
  have "launches (trace s') = launches (trace s) @ [(?c, map (h_dev_ptrs s ?c) [0..<B])]"
    using s2(4) by (simp add: s')
  also have "\<dots> = map (\<lambda>k. (k mod num_concurrent, take B (drop (k * B) (seen @ [?p])))) [0..<L]
                  @ [(L mod num_concurrent, take B (drop (L * B) (seen @ [?p])))]"
    by (simp only: ls chunks_append[OF le, of num_concurrent "[?p]"] last c)
  also have "\<dots> = map (\<lambda>k. (k mod num_concurrent, take B (drop (k * B) (seen @ [?p])))) [0..<Suc L]"
    by simp
  finally have l': "launches (trace s')
      = map (\<lambda>k. (k mod num_concurrent, take B (drop (k * B) (seen @ [?p])))) [0..<Suc L]" .
  have t': "map (h_dev_ptrs s' (cur_batch_idx s')) [0..<aggr_pkts_recv s']
      = drop (Suc L * B) (seen @ [?p])"
    using len by (simp add: s')
  show ?thesis
    unfolding batched_def
    using t' l' len assms(3) s2(1) by (simp add: s')
qed

lemma batched_process_pkt:
  assumes "batched B seen L s" "B = unat (batch_size cfg)" "0 < B"
    and "process_pkt cfg e burst pkt_idx s = Continue s'"
  shows "\<exists>L'. batched B (seen @ [adv_net_get_pkt_ptr burst pkt_idx + unat (header_size cfg)]) L' s'"
  using process_pkt_Continue[OF assms(4)] batched_store[OF assms(1,2)]
        batched_launch[OF assms(1,2,3)] assms(2)
  by blast

lemma batched_pkt_loop:
  assumes "B = unat (batch_size cfg)" "0 < B"
  shows "batched B seen L s \<Longrightarrow> pkt_loop cfg e burst idxs s = Continue s' \<Longrightarrow>
     \<exists>L'. batched B (seen @ map (\<lambda>i. adv_net_get_pkt_ptr burst i + unat (header_size cfg)) idxs) L' s'"
proof (induction idxs arbitrary: seen L s)
  case Nil
  then show ?case by auto
next
  case (Cons i idxs)
  from Cons.prems(2) obtain s1 where p: "process_pkt cfg e burst i s = Continue s1"
    and l: "pkt_loop cfg e burst idxs s1 = Continue s'"
    by (auto split: ctl.splits)
  from batched_process_pkt[OF Cons.prems(1) assms p] obtain L1
    where "batched B (seen @ [adv_net_get_pkt_ptr burst i + unat (header_size cfg)]) L1 s1" ..
  from Cons.IH[OF this l] show ?case by simp
qed

lemma compute_saturation_reports:
  assumes "compute cfg e inp s = Inr s'"
  shows "saturation_reports s \<le> saturation_reports s'"
proof (cases inp)
  case None
  with assms free_batch_queue_frame[of e s] show ?thesis
    by (auto simp: compute_def Let_def emit_def saturation_reports_def)
next
  case (Some burst)
  let ?s1 = "free_batch_queue e s"
  let ?s2 = "?s1\<lparr> ttl_pkts_recv := ttl_pkts_recv ?s1 + int (adv_net_get_num_pkts burst) \<rparr>"
  have s2: "saturation_reports ?s2 = saturation_reports s"
    using free_batch_queue_frame[of e s] by (simp add: saturation_reports_def)
  show ?thesis
  proof (cases "adv_net_get_q_id burst = 0")
    case True
    with Some assms free_batch_queue_frame[of e s] show ?thesis
      by (auto simp: compute_def Let_def)
  next
    case False
    show ?thesis
    proof (cases "pkt_loop cfg e burst [0..<adv_net_get_num_pkts burst] ?s2")
      case (Continue s3)
      with Some False assms
      have "s' = s3\<lparr> ttl_bytes_recv := ttl_bytes_recv s3 + adv_net_get_burst_tot_byte burst \<rparr>"
        by (simp add: compute_def Let_def)
      with pkt_loop_totals(1)[OF Continue] s2 show ?thesis
        by (simp add: saturation_reports_def)
    next
      case (Return s3)
      with Some False assms have "s' = s3" by (simp add: compute_def Let_def)
      with pkt_loop_totals(2)[OF Return] s2 show ?thesis by simp
    next
      case (Abort f)
      with Some False assms show ?thesis by (simp add: compute_def Let_def)
    qed
  qed
qed

lemma batched_compute:
  assumes "B = unat (batch_size cfg)" "0 < B"
    and "batched B seen L s" "compute cfg e inp s = Inr s'"
    and "saturation_reports s' = saturation_reports s"
  shows "\<exists>L'. batched B (seen @ arrivals cfg [inp]) L' s'"
proof (cases inp)
  case None
  with assms(3,4) batched_free_batch_queue[of B seen L e s] show ?thesis
    by (auto simp: compute_def Let_def emit_def batched_def launches_append)
next
  case (Some burst)
  let ?s1 = "free_batch_queue e s"
  let ?s2 = "?s1\<lparr> ttl_pkts_recv := ttl_pkts_recv ?s1 + int (adv_net_get_num_pkts burst) \<rparr>"
  have b2: "batched B seen L ?s2" using assms(3) by (simp add: batched_free_batch_queue)
  have s2: "saturation_reports ?s2 = saturation_reports s"
    using free_batch_queue_frame[of e s] by (simp add: saturation_reports_def)
  show ?thesis
  proof (cases "adv_net_get_q_id burst = 0")
    case True
    with Some assms(3,4) show ?thesis
      by (auto simp: compute_def Let_def batched_free_batch_queue)
  next
    case False
    show ?thesis
    proof (cases "pkt_loop cfg e burst [0..<adv_net_get_num_pkts burst] ?s2")
      case (Continue s3)
      with Some False assms(4)
      have "s' = s3\<lparr> ttl_bytes_recv := ttl_bytes_recv s3 + adv_net_get_burst_tot_byte burst \<rparr>"
        by (simp add: compute_def Let_def)
      with batched_pkt_loop[OF assms(1,2) b2 Continue] Some False show ?thesis
        by (simp add: payloads_def)
    next
      case (Return s3)
      with Some False assms(4) have "s' = s3" by (simp add: compute_def Let_def)
      with pkt_loop_totals(2)[OF Return] s2 assms(5) show ?thesis by simp
    next
      case (Abort f)
      with Some False assms(4) show ?thesis by (simp add: compute_def Let_def)
    qed
  qed
qed

lemma run_saturation_reports:
  "run cfg e inps s = Inr s' \<Longrightarrow> saturation_reports s \<le> saturation_reports s'"
proof (induction inps arbitrary: s)
  case Nil
  then show ?case by simp
next
  case (Cons inp inps)
  then obtain s1 where c: "compute cfg e inp s = Inr s1" and r: "run cfg e inps s1 = Inr s'"
    by (auto split: sum.splits)
  from compute_saturation_reports[OF c] Cons.IH[OF r] show ?case by simp
qed

lemma arrivals_Cons: "arrivals cfg (inp # inps) = arrivals cfg [inp] @ arrivals cfg inps"
  by (cases inp) simp_all

lemma batched_run:
  assumes "B = unat (batch_size cfg)" "0 < B"
  shows "batched B seen L s \<Longrightarrow> run cfg e inps s = Inr s' \<Longrightarrow>
     saturation_reports s' = saturation_reports s \<Longrightarrow>
     \<exists>L'. batched B (seen @ arrivals cfg inps) L' s'"
proof (induction inps arbitrary: seen L s)
  case Nil
  then show ?case by auto
next
  case (Cons inp inps)
  from Cons.prems(2) obtain s1 where c: "compute cfg e inp s = Inr s1"
    and r: "run cfg e inps s1 = Inr s'"
    by (auto split: sum.splits)
  have eq: "saturation_reports s1 = saturation_reports s" "saturation_reports s' = saturation_reports s1"
    using compute_saturation_reports[OF c] run_saturation_reports[OF r] Cons.prems(3) by simp_all
  from batched_compute[OF assms Cons.prems(1) c eq(1)] obtain L1
    where "batched B (seen @ arrivals cfg [inp]) L1 s1" ..
  from Cons.IH[OF this r eq(2)] show ?case
    by (subst arrivals_Cons) simp
qed

lemma batched_initialize: "batched B [] 0 (initialize cfg mem)"
  by (simp add: batched_def initialize_def num_concurrent_def)

lemma batched_count:
  assumes "batched B seen L s" "0 < B"
  shows "L = (length seen - 1) div B"
proof (cases "aggr_pkts_recv s = 0")
  case True
  with assms show ?thesis by (simp add: batched_def)
next
  case False
  then obtain a where a: "aggr_pkts_recv s = Suc a" by (cases "aggr_pkts_recv s") auto
  with assms have "length seen - 1 = L * B + a" "a < B" by (simp_all add: batched_def)
  then show ?thesis by simp
qed

lemmas example_defs =
  example_config_def never_done_def always_done_def first_done_def data_burst_def
  control_burst_def blank_def slot_record_def three_in_flight_def

lemmas eval_defs =
  free_batch_queue_Nil free_batch_queue_Cons compute_def process_pkt_def launch_def
  store_ptr_def emit_def initialize_def adv_net_get_q_id_def adv_net_get_num_pkts_def
  adv_net_get_pkt_ptr_def adv_net_get_burst_tot_byte_def num_concurrent_def MAX_ANO_BURSTS_def
  Let_def upt_rec saturation_reports_def payloads_def

text \<open>
  The concrete states, evaluated.
\<close>

lemma four_unreclaimed_eval:
  "compute (example_config 1 False) never_done (Some (data_burst 5 1000))
     (initialize (example_config 1 False) blank) = Inr four_unreclaimed"
  "batch_q four_unreclaimed = [slot_record 0, slot_record 1, slot_record 2, slot_record 3]"
  "aggr_pkts_recv four_unreclaimed = 1"
  "cur_batch_idx four_unreclaimed = 0"
  "h_dev_ptrs four_unreclaimed 0 0 = 1298"
  "launches (trace four_unreclaimed) = [(0, [1042]), (1, [1106]), (2, [1170]), (3, [1234])]"
  "ttl_pkts_recv four_unreclaimed = 5"
  "ttl_bytes_recv four_unreclaimed = 320"
  "saturation_reports four_unreclaimed = 0"
  unfolding four_unreclaimed_def by (simp_all add: eval_defs example_defs)

lemma fell_behind_eval:
  "compute (example_config 1 False) never_done (Some (data_burst 6 1000))
     (initialize (example_config 1 False) blank) = Inr fell_behind"
  "batch_q fell_behind = [slot_record 0, slot_record 1, slot_record 2, slot_record 3]"
  "aggr_pkts_recv fell_behind = 0"
  "cur_batch_idx fell_behind = 0"
  "h_dev_ptrs fell_behind 0 0 = 1298"
  "launches (trace fell_behind) = [(0, [1042]), (1, [1106]), (2, [1170]), (3, [1234])]"
  "ttl_pkts_recv fell_behind = 6"
  "ttl_bytes_recv fell_behind = 0"
  "saturation_reports fell_behind = 1"
  "last (trace fell_behind) = LogError FellBehind"
  unfolding fell_behind_def by (simp_all add: eval_defs example_defs)

text \<open>
  The packet loop over a list of indices split in two.
\<close>

lemma pkt_loop_append:
  "pkt_loop cfg e burst (xs @ ys) s =
     (case pkt_loop cfg e burst xs s of Continue s' \<Rightarrow> pkt_loop cfg e burst ys s' | r \<Rightarrow> r)"
  by (induction xs arbitrary: s) (auto split: ctl.splits)

lemma full_table_launches:
  assumes "0 < unat (batch_size cfg)" "unat (batch_size cfg) \<le> aggr_pkts_recv s"
    and "length (batch_q (free_batch_queue e (s\<lparr> aggr_pkts_recv := 0 \<rparr>))) \<noteq> num_concurrent"
    and "launch_ok e (clock (free_batch_queue e (s\<lparr> aggr_pkts_recv := 0 \<rparr>)))"
  shows "\<exists>s'. process_pkt cfg e burst pkt_idx s = Continue s'
       \<and> launches (trace s') = launches (trace s) @
            [(cur_batch_idx s, map (h_dev_ptrs s (cur_batch_idx s)) [0..<unat (batch_size cfg)])]
       \<and> cur_batch_idx s' = (cur_batch_idx s + 1) mod num_concurrent
       \<and> h_dev_ptrs s' = (h_dev_ptrs s)
            (cur_batch_idx s' := (h_dev_ptrs s (cur_batch_idx s'))
               (0 := adv_net_get_pkt_ptr burst pkt_idx + unat (header_size cfg)))
       \<and> aggr_pkts_recv s' = 1"
proof -
  let ?s1 = "free_batch_queue e (s\<lparr> aggr_pkts_recv := 0 \<rparr>)"
  have s1: "cur_batch_idx ?s1 = cur_batch_idx s" "h_dev_ptrs ?s1 = h_dev_ptrs s"
           "aggr_pkts_recv ?s1 = 0" "launches (trace ?s1) = launches (trace s)"
    using free_batch_queue_frame[of e "s\<lparr> aggr_pkts_recv := 0 \<rparr>"] by simp_all
  from launch_ok_Continue[OF assms(4)] obtain s2 where l: "launch cfg e ?s1 = Continue s2" ..
  note s2 = launch_Continue(1,8,6,9)[OF l]
  have a2: "aggr_pkts_recv s2 < unat (batch_size cfg)" using s2(3) s1(3) assms(1) by simp
  then obtain s' where st: "store_ptr cfg burst pkt_idx s2 = Continue s'"
    by (simp add: store_ptr_def Let_def)
  have p: "process_pkt cfg e burst pkt_idx s = Continue s'"
    using assms(2,3) l st by (simp add: process_pkt_def Let_def)
  have s': "s' = s2\<lparr> h_dev_ptrs := (h_dev_ptrs s2)
                   (cur_batch_idx s2 := (h_dev_ptrs s2 (cur_batch_idx s2))
                      (aggr_pkts_recv s2 := adv_net_get_pkt_ptr burst pkt_idx + unat (header_size cfg))),
                 aggr_pkts_recv := aggr_pkts_recv s2 + 1 \<rparr>"
    by (rule store_ptr_Continue(1)[OF st])
  show ?thesis
    using p s2 s1 by (simp add: s')
qed

lemma partial_table_stores:
  assumes "aggr_pkts_recv s < unat (batch_size cfg)"
  shows "\<exists>s'. process_pkt cfg e burst pkt_idx s = Continue s'
       \<and> launches (trace s') = launches (trace s)
       \<and> cur_batch_idx s' = cur_batch_idx s
       \<and> h_dev_ptrs s' = (h_dev_ptrs s)
            (cur_batch_idx s := (h_dev_ptrs s (cur_batch_idx s))
               (aggr_pkts_recv s := adv_net_get_pkt_ptr burst pkt_idx + unat (header_size cfg)))
       \<and> aggr_pkts_recv s' = aggr_pkts_recv s + 1"
  using assms by (simp add: process_pkt_def store_ptr_def Let_def)

lemma five_packets_batch_two:
  assumes "batch_size cfg = 2" "adv_net_get_q_id burst \<noteq> 0" "adv_net_get_num_pkts burst = 5"
    and "\<forall>t. launch_ok e t"
  shows "\<exists>s'. compute cfg e (Some burst) (initialize cfg mem) = Inr s'
       \<and> launches (trace s') =
           [(0, [adv_net_get_pkt_ptr burst 0 + unat (header_size cfg),
                 adv_net_get_pkt_ptr burst 1 + unat (header_size cfg)]),
            (1, [adv_net_get_pkt_ptr burst 2 + unat (header_size cfg),
                 adv_net_get_pkt_ptr burst 3 + unat (header_size cfg)])]
       \<and> aggr_pkts_recv s' = 1 \<and> cur_batch_idx s' = 2
       \<and> h_dev_ptrs s' 2 0 = adv_net_get_pkt_ptr burst 4 + unat (header_size cfg)
       \<and> ttl_pkts_recv s' = 5"
  using assms
  by (simp add: compute_def process_pkt_def launch_def store_ptr_def emit_def initialize_def
        free_batch_queue_Nil free_batch_queue_Cons num_concurrent_def Let_def upt_rec
        launches_append)
     (simp add: eval_nat_numeral)

lemma full_table_eval:
  "batch_q full_table = []"
  "aggr_pkts_recv full_table = 2"
  "cur_batch_idx full_table = 0"
  "h_dev_ptrs full_table 0 0 = 1042"
  "h_dev_ptrs full_table 0 (Suc 0) = 1106"
  "h_dev_ptrs full_table (Suc 0) = blank (Suc 0)"
  "launches (trace full_table) = []"
  "clock full_table = 0"
  "cur_batch full_table = \<lparr> bursts = replicate MAX_ANO_BURSTS None, num_bursts = 0, evt = NullEvent \<rparr>"
  unfolding full_table_def by (simp_all add: eval_defs example_defs)

lemma four_unreclaimed_reachable: "reachable (example_config 1 False) four_unreclaimed"
  by (rule reachable.returned[OF reachable.start four_unreclaimed_eval(1)])

lemma mixed_run_eval:
  "run (example_config 2 False) always_done mixed_inputs (initialize (example_config 2 False) blank)
     = Inr (projr (run (example_config 2 False) always_done mixed_inputs
                     (initialize (example_config 2 False) blank)))"
  "saturation_reports (projr (run (example_config 2 False) always_done mixed_inputs
                     (initialize (example_config 2 False) blank))) = 0"
  by (simp_all add: eval_defs example_defs mixed_inputs_def)

text \<open>
  In a build without \<^verbatim>\<open>DEBUG_CUDA_TIMES == 1\<close> a launch that the device accepts
  makes two calls, the kernel launch and \<^verbatim>\<open>cudaGetLastError\<close>, and queues the
  event of the slot without a record of it.
\<close>

lemma launch_without_record:
  assumes "\<not> debug_cuda_times cfg" "launch cfg e s = Continue s'"
  shows "trace s' = trace s @
           [KernelLaunch (cur_batch_idx s)
              (map (h_dev_ptrs s (cur_batch_idx s)) [0..<unat (batch_size cfg)])
              (unat (nom_payload_size s)) (unat (batch_size cfg)) (cur_batch_idx s),
            GetLastError True]"
    and "batch_q s' = batch_q s @ [(cur_batch s)\<lparr> evt := events (cur_batch_idx s) \<rparr>]"
  using assms by (auto simp: launch_def Let_def emit_def split: if_splits)

text \<open>
  Arithmetic of the slot index round the ring of four.
\<close>

lemma ring_shift:
  fixes c k i :: nat
  assumes "k < 4" "i < k"
  shows "(c + 4 - k + i) mod 4 = ((c + 1) mod 4 + 4 - Suc k + i) mod 4"
proof -
  have "(c + 1) mod 4 + 4 - Suc k + i = (c + 1) mod 4 + (3 - k + i)" using assms by simp
  then have "((c + 1) mod 4 + 4 - Suc k + i) mod 4 = (c + 1 + (3 - k + i)) mod 4"
    by (simp only: mod_add_left_eq)
  also have "c + 1 + (3 - k + i) = c + 4 - k + i" using assms by simp
  finally show ?thesis by simp
qed

lemma ring_new:
  fixes c k :: nat
  assumes "k < 4" "c < 4"
  shows "c = ((c + 1) mod 4 + 4 - Suc k + k) mod 4"
proof -
  have "(c + 1) mod 4 + 4 - Suc k + k = (c + 1) mod 4 + 3" using assms by simp
  then have "((c + 1) mod 4 + 4 - Suc k + k) mod 4 = (c + 1 + 3) mod 4"
    by (simp only: mod_add_left_eq)
  also have "\<dots> = c" using assms by simp
  finally show ?thesis by simp
qed

lemma ring_distinct:
  fixes c k i :: nat
  assumes "c < 4" "k < 4" "i < k"
  shows "c \<noteq> (c + 4 - k + i) mod 4"
proof -
  define d where "d = 4 - k + i"
  have d: "0 < d" "d < 4" using assms by (simp_all add: d_def)
  have eq: "c + 4 - k + i = c + d" using assms by (simp add: d_def)
  have "(c + d) mod 4 \<noteq> c"
  proof (cases "c + d < 4")
    case True
    then show ?thesis using d by simp
  next
    case False
    then have "(c + d) mod 4 = c + d - 4" using assms(1) d
      by (simp add: mod_if)
    then show ?thesis using d False by simp
  qed
  then show ?thesis by (simp only: eq)
qed

text \<open>
  The round robin holds initially and is kept by every operation.
\<close>

lemma ring_inv_initialize: "ring_inv (initialize cfg mem)"
  by (simp add: ring_inv_def initialize_def num_concurrent_def)

lemma ring_inv_frame [simp]:
  "ring_inv (s\<lparr> aggr_pkts_recv := n \<rparr>) = ring_inv s"
  "ring_inv (s\<lparr> ttl_pkts_recv := p \<rparr>) = ring_inv s"
  "ring_inv (s\<lparr> ttl_bytes_recv := b \<rparr>) = ring_inv s"
  "ring_inv (emit es s) = ring_inv s"
  by (simp_all add: ring_inv_def emit_def)

lemma ring_inv_free_batch_queue:
  assumes "ring_inv s" shows "ring_inv (free_batch_queue e s)"
proof -
  let ?q = "batch_q s" and ?c = "cur_batch_idx s"
  let ?n = num_concurrent
  obtain j where j: "j \<le> length ?q" "batch_q (free_batch_queue e s) = drop j ?q"
    using free_batch_queue_drop[of s e] by blast
  have c: "cur_batch_idx (free_batch_queue e s) = ?c"
    using free_batch_queue_frame[of e s] by simp
  have len: "length ?q \<le> ?n" and cl: "?c < ?n"
    and ev: "map evt ?q = map (\<lambda>i. events ((?c + ?n - length ?q + i) mod ?n)) [0..<length ?q]"
    using assms by (simp_all add: ring_inv_def)
  have nth: "evt (?q ! i) = events ((?c + ?n - length ?q + i) mod ?n)" if "i < length ?q" for i
  proof -
    have "evt (?q ! i) = map evt ?q ! i" using that by simp
    also have "\<dots> = map (\<lambda>i. events ((?c + ?n - length ?q + i) mod ?n)) [0..<length ?q] ! i"
      by (simp only: ev)
    also have "\<dots> = events ((?c + ?n - length ?q + i) mod ?n)" using that by simp
    finally show ?thesis .
  qed
  have "map evt (drop j ?q)
      = map (\<lambda>i. events ((?c + ?n - (length ?q - j) + i) mod ?n)) [0..<length ?q - j]"
  proof (rule nth_equalityI)
    show "length (map evt (drop j ?q))
        = length (map (\<lambda>i. events ((?c + ?n - (length ?q - j) + i) mod ?n)) [0..<length ?q - j])"
      by simp
  next
    fix i assume "i < length (map evt (drop j ?q))"
    then have i: "i < length ?q - j" by simp
    then have "j + i < length ?q" by simp
    from nth[OF this] have "evt (?q ! (j + i)) = events ((?c + ?n - length ?q + (j + i)) mod ?n)" .
    moreover have "?c + ?n - length ?q + (j + i) = ?c + ?n - (length ?q - j) + i"
      using j(1) len by simp
    ultimately show "map evt (drop j ?q) ! i
        = map (\<lambda>i. events ((?c + ?n - (length ?q - j) + i) mod ?n)) [0..<length ?q - j] ! i"
      using i j(1) by simp
  qed
  then show ?thesis
    using j len cl c by (simp add: ring_inv_def)
qed

lemma ring_inv_launch:
  assumes "ring_inv s" "length (batch_q s) \<noteq> num_concurrent" "launch cfg e s = Continue s'"
  shows "ring_inv s'"
proof -
  let ?q = "batch_q s" and ?c = "cur_batch_idx s"
  have len: "length ?q < 4" and cl: "?c < 4"
    and ev: "map evt ?q = map (\<lambda>i. events ((?c + 4 - length ?q + i) mod 4)) [0..<length ?q]"
    using assms(1,2) by (simp_all add: ring_inv_def num_concurrent_def)
  have l: "cur_batch_idx s' = (?c + 1) mod 4"
          "batch_q s' = ?q @ [(cur_batch s)\<lparr> evt := events ?c \<rparr>]"
    using launch_Continue(1,2)[OF assms(3)] by (simp_all add: num_concurrent_def)
  have old: "map (\<lambda>i. events ((?c + 4 - length ?q + i) mod 4)) [0..<length ?q]
      = map (\<lambda>i. events (((?c + 1) mod 4 + 4 - Suc (length ?q) + i) mod 4)) [0..<length ?q]"
  proof (rule map_cong[OF refl])
    fix i assume "i \<in> set [0..<length ?q]"
    then have "i < length ?q" by simp
    from ring_shift[OF len this, of ?c]
    show "events ((?c + 4 - length ?q + i) mod 4)
        = events (((?c + 1) mod 4 + 4 - Suc (length ?q) + i) mod 4)"
      by (simp only:)
  qed
  have new: "events ?c = events (((?c + 1) mod 4 + 4 - Suc (length ?q) + length ?q) mod 4)"
    using ring_new[OF len cl] by (simp only:)
  have "map evt (batch_q s') = map evt ?q @ [events ?c]" by (simp add: l)
  also have "\<dots> = map (\<lambda>i. events (((?c + 1) mod 4 + 4 - Suc (length ?q) + i) mod 4)) [0..<length ?q]
                 @ [events (((?c + 1) mod 4 + 4 - Suc (length ?q) + length ?q) mod 4)]"
    using ev old new by (simp only:)
  also have "\<dots> = map (\<lambda>i. events ((cur_batch_idx s' + 4 - length (batch_q s') + i) mod 4))
                   [0..<length (batch_q s')]"
    by (simp add: l)
  finally have "map evt (batch_q s') =
      map (\<lambda>i. events ((cur_batch_idx s' + 4 - length (batch_q s') + i) mod 4))
          [0..<length (batch_q s')]" .
  moreover have "cur_batch_idx s' < 4" "length (batch_q s') \<le> 4" using len by (simp_all add: l)
  ultimately show ?thesis by (simp add: ring_inv_def num_concurrent_def)
qed

lemma ring_inv_store_ptr:
  "ring_inv s \<Longrightarrow> store_ptr cfg burst pkt_idx s = Continue s' \<Longrightarrow> ring_inv s'"
  by (auto dest!: store_ptr_Continue(1) simp: ring_inv_def)

lemma ring_inv_process_pkt:
  assumes "ring_inv s"
  shows "process_pkt cfg e burst pkt_idx s = Continue s' \<Longrightarrow> ring_inv s'"
    and "process_pkt cfg e burst pkt_idx s = Return s' \<Longrightarrow> ring_inv s'"
proof -
  have f: "ring_inv (free_batch_queue e (s\<lparr> aggr_pkts_recv := 0 \<rparr>))"
    using assms by (simp add: ring_inv_free_batch_queue)
  { assume "process_pkt cfg e burst pkt_idx s = Continue s'"
    from process_pkt_Continue[OF this] show "ring_inv s'"
      using assms f by (auto intro: ring_inv_store_ptr ring_inv_launch) }
  { assume "process_pkt cfg e burst pkt_idx s = Return s'"
    from process_pkt_Return(3)[OF this] f show "ring_inv s'" by simp }
qed

lemma ring_inv_pkt_loop:
  "ring_inv s \<Longrightarrow> pkt_loop cfg e burst idxs s = Continue s' \<or> pkt_loop cfg e burst idxs s = Return s'
     \<Longrightarrow> ring_inv s'"
proof (induction idxs arbitrary: s)
  case Nil
  then show ?case by simp
next
  case (Cons i idxs)
  show ?case
  proof (cases "process_pkt cfg e burst i s")
    case (Continue s1)
    with Cons.prems ring_inv_process_pkt(1)[OF Cons.prems(1) Continue] Cons.IH[of s1]
    show ?thesis by simp
  next
    case (Return s1)
    with Cons.prems ring_inv_process_pkt(2)[OF Cons.prems(1) Return] show ?thesis by simp
  next
    case (Abort f)
    with Cons.prems show ?thesis by simp
  qed
qed

lemma ring_inv_compute:
  assumes "ring_inv s" "compute cfg e burst_opt s = Inr s'"
  shows "ring_inv s'"
proof (cases burst_opt)
  case None
  with assms show ?thesis
    by (auto simp: compute_def Let_def ring_inv_free_batch_queue)
next
  case (Some burst)
  let ?s1 = "free_batch_queue e s"
  let ?s2 = "?s1\<lparr> ttl_pkts_recv := ttl_pkts_recv ?s1 + int (adv_net_get_num_pkts burst) \<rparr>"
  have i2: "ring_inv ?s2" using assms(1) by (simp add: ring_inv_free_batch_queue)
  show ?thesis
  proof (cases "adv_net_get_q_id burst = 0")
    case True
    with Some assms show ?thesis
      by (auto simp: compute_def Let_def ring_inv_free_batch_queue)
  next
    case False
    show ?thesis
    proof (cases "pkt_loop cfg e burst [0..<adv_net_get_num_pkts burst] ?s2")
      case (Continue s3)
      then have "ring_inv s3" using ring_inv_pkt_loop[OF i2] by blast
      with Continue Some False assms(2) show ?thesis by (auto simp: compute_def Let_def)
    next
      case (Return s3)
      then have "ring_inv s3" using ring_inv_pkt_loop[OF i2] by blast
      with Return Some False assms(2) show ?thesis by (auto simp: compute_def Let_def)
    next
      case (Abort f)
      with Some False assms(2) show ?thesis by (simp add: compute_def Let_def)
    qed
  qed
qed

lemma reachable_ring_inv: "reachable cfg s \<Longrightarrow> ring_inv s"
proof (induction rule: reachable.induct)
  case (start mem)
  show ?case by (rule ring_inv_initialize)
next
  case (reclaimed s e)
  then show ?case by (simp add: ring_inv_free_batch_queue)
next
  case (counted s burst)
  then show ?case by simp
next
  case (stored s e burst pkt_idx s')
  then show ?case by (auto intro: ring_inv_process_pkt(1))
next
  case (saturated s e burst pkt_idx s')
  then show ?case by (auto intro: ring_inv_process_pkt(2))
next
  case (returned s e burst_opt s')
  then show ?case by (auto intro: ring_inv_compute)
qed

text \<open>
  The slot whose table is written next has a batch record in the queue exactly when the
  queue holds \<open>num_concurrent\<close> records.
\<close>

lemma active_slot_in_flight_iff_full:
  assumes "reachable cfg s"
  shows "events (cur_batch_idx s) \<in> evt ` set (batch_q s) \<longleftrightarrow> length (batch_q s) = num_concurrent"
proof -
  let ?q = "batch_q s" and ?c = "cur_batch_idx s"
  have len: "length ?q \<le> 4" and cl: "?c < 4"
    and ev: "map evt ?q = map (\<lambda>i. events ((?c + 4 - length ?q + i) mod 4)) [0..<length ?q]"
    using reachable_ring_inv[OF assms] by (simp_all add: ring_inv_def num_concurrent_def)
  have "evt ` set ?q = set (map evt ?q)" by simp
  also have "\<dots> = (\<lambda>i. events ((?c + 4 - length ?q + i) mod 4)) ` {0..<length ?q}"
    by (subst ev) simp
  finally have img: "evt ` set ?q
      = (\<lambda>i. events ((?c + 4 - length ?q + i) mod 4)) ` {0..<length ?q}" .
  show ?thesis
  proof
    assume "events ?c \<in> evt ` set ?q"
    then obtain i where i: "i < length ?q" "?c = (?c + 4 - length ?q + i) mod 4"
      unfolding img by auto
    show "length ?q = num_concurrent"
    proof (rule ccontr)
      assume "length ?q \<noteq> num_concurrent"
      with len have "length ?q < 4" by (simp add: num_concurrent_def)
      from ring_distinct[OF cl this i(1)] i(2) show False by simp
    qed
  next
    assume "length ?q = num_concurrent"
    then have full: "length ?q = 4" by (simp add: num_concurrent_def)
    have "events ?c = events ((?c + 4 - length ?q + 0) mod 4)" using cl full by simp
    moreover have "(0::nat) \<in> {0..<length ?q}" using full by simp
    ultimately show "events ?c \<in> evt ` set ?q"
      unfolding img by (rule image_eqI)
  qed
qed

text \<open>
  Records leave the queue at its front only, and only when polled as complete: this holds
  of the reclaim pass, of a launch, of the loop body, of the loop and of a whole call.
\<close>

lemma kept_refl: "batch_q s' = batch_q s \<Longrightarrow> trace s' = trace s \<Longrightarrow> kept_until_polled s s'"
  unfolding kept_until_polled_def
  by (intro exI[of _ 0] exI[of _ "[]"]) simp

lemma kept_emit: "batch_q s' = batch_q s \<Longrightarrow> trace s' = trace s @ ext \<Longrightarrow> kept_until_polled s s'"
  unfolding kept_until_polled_def
  by (intro exI[of _ 0] conjI exI[of _ "[]"] exI[of _ ext]) simp_all

lemma kept_trans:
  assumes "kept_until_polled s s1" "kept_until_polled s1 s2"
  shows "kept_until_polled s s2"
proof -
  let ?q = "batch_q s"
  from assms(1) obtain k1 n1 x1 where 1: "k1 \<le> length ?q"
    "batch_q s1 = drop k1 ?q @ n1" "trace s1 = trace s @ x1"
    "\<forall>i<k1. EventQuery (evt (?q ! i)) True \<in> set x1"
    unfolding kept_until_polled_def by blast
  from assms(2) obtain k2 n2 x2 where 2: "k2 \<le> length (batch_q s1)"
    "batch_q s2 = drop k2 (batch_q s1) @ n2" "trace s2 = trace s1 @ x2"
    "\<forall>i<k2. EventQuery (evt (batch_q s1 ! i)) True \<in> set x2"
    unfolding kept_until_polled_def by blast
  let ?K = "min (length ?q) (k1 + k2)"
  let ?N = "drop (k2 - (length ?q - k1)) n1 @ n2"
  have q2: "batch_q s2 = drop ?K ?q @ ?N"
  proof -
    have "batch_q s2 = drop (k1 + k2) ?q @ ?N"
      using 1(1) by (simp add: 2(2) 1(2) add.commute)
    moreover have "drop (k1 + k2) ?q = drop ?K ?q"
      by (cases "k1 + k2 \<le> length ?q") (simp_all add: min_def)
    ultimately show ?thesis by simp
  qed
  have tr: "trace s2 = trace s @ (x1 @ x2)" by (simp add: 2(3) 1(3))
  have polled: "\<forall>i<?K. EventQuery (evt (?q ! i)) True \<in> set (x1 @ x2)"
  proof (intro allI impI)
    fix i assume i: "i < ?K"
    show "EventQuery (evt (?q ! i)) True \<in> set (x1 @ x2)"
    proof (cases "i < k1")
      case True
      with 1(4) show ?thesis by simp
    next
      case False
      with i have j: "i - k1 < k2" "i - k1 < length (drop k1 ?q)" by auto
      then have "batch_q s1 ! (i - k1) = ?q ! i"
        using False by (simp add: 1(2) nth_append)
      with 2(4) j(1) show ?thesis by (metis UnCI set_append)
    qed
  qed
  have "?K \<le> length ?q" by simp
  with q2 tr polled show ?thesis
    unfolding kept_until_polled_def by blast
qed

lemma kept_free_batch_queue: "kept_until_polled s (free_batch_queue e s)"
proof -
  let ?q = "batch_q s"
  obtain k where k: "k \<le> length ?q"
    "batch_q (free_batch_queue e s) = drop k ?q"
    "trace (free_batch_queue e s) =
         trace s @ map (\<lambda>i. EventQuery (evt (?q ! i)) (i < k)) [0..<min (Suc k) (length ?q)]"
    using free_batch_queue_drop[of s e] by blast
  let ?ext = "map (\<lambda>i. EventQuery (evt (?q ! i)) (i < k)) [0..<min (Suc k) (length ?q)]"
  have "\<forall>i<k. EventQuery (evt (?q ! i)) True \<in> set ?ext"
  proof (intro allI impI)
    fix i assume i: "i < k"
    then have "i \<in> {0..<min (Suc k) (length ?q)}" using k(1) by simp
    moreover have "EventQuery (evt (?q ! i)) True = EventQuery (evt (?q ! i)) (i < k)"
      using i by simp
    ultimately have "EventQuery (evt (?q ! i)) True
        \<in> (\<lambda>i. EventQuery (evt (?q ! i)) (i < k)) ` {0..<min (Suc k) (length ?q)}"
      by (rule image_eqI[rotated])
    then show "EventQuery (evt (?q ! i)) True \<in> set ?ext"
      by (simp only: set_map set_upt)
  qed
  with k show ?thesis
    unfolding kept_until_polled_def
    by (intro exI[of _ k] conjI exI[of _ "[]"] exI[of _ ?ext]) simp_all
qed

lemma launch_trace_grows:
  assumes "launch cfg e s = Continue s'"
  shows "\<exists>ext. trace s' = trace s @ ext"
  using assms by (auto simp: launch_def Let_def emit_def split: if_splits)

lemma kept_launch:
  assumes "launch cfg e s = Continue s'"
  shows "kept_until_polled s s'"
proof -
  from launch_trace_grows[OF assms] obtain ext where "trace s' = trace s @ ext" ..
  with launch_Continue(2)[OF assms] show ?thesis
    unfolding kept_until_polled_def
    by (intro exI[of _ 0] conjI exI[of _ "[(cur_batch s)\<lparr> evt := events (cur_batch_idx s) \<rparr>]"]
          exI[of _ ext]) simp_all
qed

lemma kept_store_ptr:
  "store_ptr cfg burst pkt_idx s = Continue s' \<Longrightarrow> kept_until_polled s s'"
  by (auto dest!: store_ptr_Continue(1) intro: kept_refl)

lemma kept_process_pkt:
  assumes "process_pkt cfg e burst pkt_idx s = Continue s' \<or> process_pkt cfg e burst pkt_idx s = Return s'"
  shows "kept_until_polled s s'"
proof -
  let ?s0 = "s\<lparr> aggr_pkts_recv := 0 \<rparr>"
  let ?s1 = "free_batch_queue e ?s0"
  have a: "kept_until_polled s ?s1"
    by (rule kept_trans[OF kept_refl kept_free_batch_queue]) simp_all
  from assms show ?thesis
  proof
    assume "process_pkt cfg e burst pkt_idx s = Continue s'"
    from process_pkt_Continue[OF this] show ?thesis
    proof (elim disjE conjE exE)
      assume "store_ptr cfg burst pkt_idx s = Continue s'"
      then show ?thesis by (rule kept_store_ptr)
    next
      fix s2 assume "launch cfg e ?s1 = Continue s2" "store_ptr cfg burst pkt_idx s2 = Continue s'"
      then show ?thesis
        using a by (blast intro: kept_trans kept_launch kept_store_ptr)
    qed
  next
    assume "process_pkt cfg e burst pkt_idx s = Return s'"
    from process_pkt_Return(3)[OF this]
    have "kept_until_polled ?s1 s'" by (intro kept_emit[of _ _ "[LogError FellBehind]"]) (simp_all add: emit_def)
    with a show ?thesis by (rule kept_trans)
  qed
qed

lemma kept_pkt_loop:
  "pkt_loop cfg e burst idxs s = Continue s' \<or> pkt_loop cfg e burst idxs s = Return s'
     \<Longrightarrow> kept_until_polled s s'"
proof (induction idxs arbitrary: s)
  case Nil
  then show ?case by (simp add: kept_refl)
next
  case (Cons i idxs)
  show ?case
  proof (cases "process_pkt cfg e burst i s")
    case (Continue s1)
    then have "kept_until_polled s s1" using kept_process_pkt by blast
    moreover have "kept_until_polled s1 s'" using Cons.prems Continue Cons.IH[of s1] by simp
    ultimately show ?thesis by (rule kept_trans)
  next
    case (Return s1)
    with Cons.prems have "s1 = s'" by simp
    with Return show ?thesis using kept_process_pkt by blast
  next
    case (Abort f)
    with Cons.prems show ?thesis by simp
  qed
qed

lemma kept_compute:
  assumes "compute cfg e burst_opt s = Inr s'"
  shows "kept_until_polled s s'"
proof -
  let ?s1 = "free_batch_queue e s"
  have a: "kept_until_polled s ?s1" by (rule kept_free_batch_queue)
  show ?thesis
  proof (cases burst_opt)
    case None
    with assms have "s' = emit [LogError NoBurstInput] ?s1" by (simp add: compute_def Let_def)
    then have "kept_until_polled ?s1 s'"
      by (intro kept_emit[of _ _ "[LogError NoBurstInput]"]) (simp_all add: emit_def)
    with a show ?thesis by (rule kept_trans)
  next
    case (Some burst)
    let ?s2 = "?s1\<lparr> ttl_pkts_recv := ttl_pkts_recv ?s1 + int (adv_net_get_num_pkts burst) \<rparr>"
    have b: "kept_until_polled s ?s2"
      by (rule kept_trans[OF a kept_refl]) simp_all
    show ?thesis
    proof (cases "adv_net_get_q_id burst = 0")
      case True
      with Some assms a show ?thesis by (simp add: compute_def Let_def)
    next
      case False
      show ?thesis
      proof (cases "pkt_loop cfg e burst [0..<adv_net_get_num_pkts burst] ?s2")
        case (Continue s3)
        then have c: "kept_until_polled ?s2 s3" using kept_pkt_loop by blast
        from Continue Some False assms
        have "s' = s3\<lparr> ttl_bytes_recv := ttl_bytes_recv s3 + adv_net_get_burst_tot_byte burst \<rparr>"
          by (simp add: compute_def Let_def)
        then have "kept_until_polled s3 s'" by (intro kept_refl) simp_all
        with b c show ?thesis by (blast intro: kept_trans)
      next
        case (Return s3)
        then have c: "kept_until_polled ?s2 s3" using kept_pkt_loop by blast
        from Return Some False assms have "s' = s3" by (simp add: compute_def Let_def)
        with b c show ?thesis by (blast intro: kept_trans)
      next
        case (Abort f)
        with Some False assms show ?thesis by (simp add: compute_def Let_def)
      qed
    qed
  qed
qed

text \<open>
  The queue holds the records of the last launches of the trace initially, and every
  operation keeps it so.
\<close>

lemma queue_matches_launches_initialize: "queue_matches_launches (initialize cfg mem)"
  by (simp add: queue_matches_launches_def initialize_def)

lemma queue_matches_launches_frame [simp]:
  "queue_matches_launches (s\<lparr> aggr_pkts_recv := n \<rparr>) = queue_matches_launches s"
  "queue_matches_launches (s\<lparr> ttl_pkts_recv := p \<rparr>) = queue_matches_launches s"
  "queue_matches_launches (s\<lparr> ttl_bytes_recv := b \<rparr>) = queue_matches_launches s"
  "queue_matches_launches (emit [LogError m] s) = queue_matches_launches s"
  by (simp_all add: queue_matches_launches_def emit_def launches_append)

lemma queue_matches_launches_free_batch_queue:
  assumes "queue_matches_launches s" shows "queue_matches_launches (free_batch_queue e s)"
proof -
  let ?q = "batch_q s" and ?ls = "launches (trace s)"
  obtain j where j: "j \<le> length ?q" "batch_q (free_batch_queue e s) = drop j ?q"
    using free_batch_queue_drop[of s e] by blast
  have ls: "launches (trace (free_batch_queue e s)) = ?ls"
    using free_batch_queue_frame[of e s] by simp
  have len: "length ?q \<le> length ?ls"
    and ev: "map evt ?q = map (\<lambda>l. events (fst l)) (drop (length ?ls - length ?q) ?ls)"
    using assms by (simp_all add: queue_matches_launches_def)
  have "map evt (drop j ?q) = drop j (map evt ?q)" by (simp add: drop_map)
  also have "\<dots> = map (\<lambda>l. events (fst l)) (drop (j + (length ?ls - length ?q)) ?ls)"
    by (simp only: ev drop_map drop_drop)
  also have "j + (length ?ls - length ?q) = length ?ls - (length ?q - j)"
    using j(1) len by simp
  finally show ?thesis
    using j len by (simp add: queue_matches_launches_def ls)
qed

lemma queue_matches_launches_launch:
  assumes "queue_matches_launches s" "launch cfg e s = Continue s'"
  shows "queue_matches_launches s'"
proof -
  let ?q = "batch_q s" and ?ls = "launches (trace s)" and ?c = "cur_batch_idx s"
  let ?x = "(?c, map (h_dev_ptrs s ?c) [0..<unat (batch_size cfg)])"
  have len: "length ?q \<le> length ?ls"
    and ev: "map evt ?q = map (\<lambda>l. events (fst l)) (drop (length ?ls - length ?q) ?ls)"
    using assms(1) by (simp_all add: queue_matches_launches_def)
  have q': "batch_q s' = ?q @ [(cur_batch s)\<lparr> evt := events ?c \<rparr>]"
    and ls': "launches (trace s') = ?ls @ [?x]"
    using launch_Continue(2,9)[OF assms(2)] by simp_all
  have "map evt (batch_q s') = map evt ?q @ [events ?c]" by (simp add: q')
  also have "\<dots> = map (\<lambda>l. events (fst l)) (drop (length ?ls - length ?q) ?ls @ [?x])"
    by (simp add: ev)
  also have "drop (length ?ls - length ?q) ?ls @ [?x]
      = drop (length (?ls @ [?x]) - length (?q @ [(cur_batch s)\<lparr> evt := events ?c \<rparr>])) (?ls @ [?x])"
    using len by simp
  finally show ?thesis
    using len by (simp add: queue_matches_launches_def q' ls')
qed

lemma queue_matches_launches_store_ptr:
  "queue_matches_launches s \<Longrightarrow> store_ptr cfg burst pkt_idx s = Continue s' \<Longrightarrow>
     queue_matches_launches s'"
  by (auto dest!: store_ptr_Continue(1) simp: queue_matches_launches_def)

lemma queue_matches_launches_process_pkt:
  assumes "queue_matches_launches s"
    and "process_pkt cfg e burst pkt_idx s = Continue s' \<or> process_pkt cfg e burst pkt_idx s = Return s'"
  shows "queue_matches_launches s'"
proof -
  have f: "queue_matches_launches (free_batch_queue e (s\<lparr> aggr_pkts_recv := 0 \<rparr>))"
    using assms(1) by (simp add: queue_matches_launches_free_batch_queue)
  from assms(2) show ?thesis
  proof
    assume "process_pkt cfg e burst pkt_idx s = Continue s'"
    from process_pkt_Continue[OF this] show ?thesis
      using assms(1) f
      by (auto intro: queue_matches_launches_store_ptr queue_matches_launches_launch)
  next
    assume "process_pkt cfg e burst pkt_idx s = Return s'"
    from process_pkt_Return(3)[OF this] f show ?thesis by simp
  qed
qed

lemma queue_matches_launches_pkt_loop:
  "queue_matches_launches s \<Longrightarrow>
   pkt_loop cfg e burst idxs s = Continue s' \<or> pkt_loop cfg e burst idxs s = Return s' \<Longrightarrow>
   queue_matches_launches s'"
proof (induction idxs arbitrary: s)
  case Nil
  then show ?case by simp
next
  case (Cons i idxs)
  show ?case
  proof (cases "process_pkt cfg e burst i s")
    case (Continue s1)
    then have "queue_matches_launches s1"
      using queue_matches_launches_process_pkt[OF Cons.prems(1)] by blast
    with Cons.prems(2) Continue Cons.IH[of s1] show ?thesis by simp
  next
    case (Return s1)
    then have "queue_matches_launches s1"
      using queue_matches_launches_process_pkt[OF Cons.prems(1)] by blast
    with Cons.prems(2) Return show ?thesis by simp
  next
    case (Abort f)
    with Cons.prems show ?thesis by simp
  qed
qed

lemma queue_matches_launches_compute:
  assumes "queue_matches_launches s" "compute cfg e burst_opt s = Inr s'"
  shows "queue_matches_launches s'"
proof (cases burst_opt)
  case None
  with assms show ?thesis
    by (auto simp: compute_def Let_def queue_matches_launches_free_batch_queue)
next
  case (Some burst)
  let ?s1 = "free_batch_queue e s"
  let ?s2 = "?s1\<lparr> ttl_pkts_recv := ttl_pkts_recv ?s1 + int (adv_net_get_num_pkts burst) \<rparr>"
  have i2: "queue_matches_launches ?s2"
    using assms(1) by (simp add: queue_matches_launches_free_batch_queue)
  show ?thesis
  proof (cases "adv_net_get_q_id burst = 0")
    case True
    with Some assms show ?thesis
      by (auto simp: compute_def Let_def queue_matches_launches_free_batch_queue)
  next
    case False
    show ?thesis
    proof (cases "pkt_loop cfg e burst [0..<adv_net_get_num_pkts burst] ?s2")
      case (Continue s3)
      then have "queue_matches_launches s3" using queue_matches_launches_pkt_loop[OF i2] by blast
      with Continue Some False assms(2) show ?thesis by (auto simp: compute_def Let_def)
    next
      case (Return s3)
      then have "queue_matches_launches s3" using queue_matches_launches_pkt_loop[OF i2] by blast
      with Return Some False assms(2) show ?thesis by (auto simp: compute_def Let_def)
    next
      case (Abort f)
      with Some False assms(2) show ?thesis by (simp add: compute_def Let_def)
    qed
  qed
qed

lemma reachable_queue_matches_launches: "reachable cfg s \<Longrightarrow> queue_matches_launches s"
proof (induction rule: reachable.induct)
  case (start mem)
  show ?case by (rule queue_matches_launches_initialize)
next
  case (reclaimed s e)
  then show ?case by (simp add: queue_matches_launches_free_batch_queue)
next
  case (counted s burst)
  then show ?case by simp
next
  case (stored s e burst pkt_idx s')
  then show ?case using queue_matches_launches_process_pkt by blast
next
  case (saturated s e burst pkt_idx s')
  then show ?case using queue_matches_launches_process_pkt by blast
next
  case (returned s e burst_opt s')
  then show ?case by (auto intro: queue_matches_launches_compute)
qed

section \<open>The claims\<close>

subsection \<open>C1: saturation\<close>

text \<open>
  \<^bold>\<open>C1.\<close> Let a burst on a data queue be processed up to its packet \<open>k\<close>, and let
  the table of the current slot be full there while \<open>num_concurrent\<close> batches are still in
  the queue after the reclaim pass. Then \<^verbatim>\<open>compute\<close> logs the condition and returns
  at once, as an ordinary return to the scheduler: no kernel is launched, neither packet
  \<open>k\<close> nor any later packet of the burst is stored in a pointer table, and the bytes of
  the burst are not added to the total. Nothing more is stopped than this call: the claim
  that no packet is processed afterwards fails, as the theorem after the next one shows.
\<close>

theorem saturation_stops_burst:
  assumes "adv_net_get_q_id burst \<noteq> 0"
    and "k < adv_net_get_num_pkts burst"
    and "pkt_loop cfg e burst [0..<k]
           ((free_batch_queue e s)\<lparr> ttl_pkts_recv :=
               ttl_pkts_recv (free_batch_queue e s) + int (adv_net_get_num_pkts burst) \<rparr>)
         = Continue s1"
    and "unat (batch_size cfg) \<le> aggr_pkts_recv s1"
    and "length (batch_q (free_batch_queue e (s1\<lparr> aggr_pkts_recv := 0 \<rparr>))) = num_concurrent"
  shows "compute cfg e (Some burst) s
           = Inr (emit [LogError FellBehind] (free_batch_queue e (s1\<lparr> aggr_pkts_recv := 0 \<rparr>)))
       \<and> launches (trace (emit [LogError FellBehind]
             (free_batch_queue e (s1\<lparr> aggr_pkts_recv := 0 \<rparr>)))) = launches (trace s1)
       \<and> h_dev_ptrs (emit [LogError FellBehind]
             (free_batch_queue e (s1\<lparr> aggr_pkts_recv := 0 \<rparr>))) = h_dev_ptrs s1
       \<and> ttl_bytes_recv (emit [LogError FellBehind]
             (free_batch_queue e (s1\<lparr> aggr_pkts_recv := 0 \<rparr>))) = ttl_bytes_recv s"
proof -
  let ?n = "adv_net_get_num_pkts burst"
  let ?s2 = "(free_batch_queue e s)\<lparr> ttl_pkts_recv := ttl_pkts_recv (free_batch_queue e s) + int ?n \<rparr>"
  let ?s' = "emit [LogError FellBehind] (free_batch_queue e (s1\<lparr> aggr_pkts_recv := 0 \<rparr>))"
  have split: "[0..<?n] = [0..<k] @ k # [Suc k..<?n]"
    using assms(2) by (metis less_imp_le_nat upt_add_eq_append upt_conv_Cons plus_nat.add_0 le0 le_add_diff_inverse)
  have body: "process_pkt cfg e burst k s1 = Return ?s'"
    using assms(4,5) by (simp add: process_pkt_def Let_def)
  have "pkt_loop cfg e burst [0..<?n] ?s2 = Return ?s'"
    by (simp only: split pkt_loop_append assms(3) ctl.case pkt_loop.simps body)
  then have c: "compute cfg e (Some burst) s = Inr ?s'"
    using assms(1) by (simp add: compute_def Let_def)
  have fr: "launches (trace ?s') = launches (trace s1)" "h_dev_ptrs ?s' = h_dev_ptrs s1"
           "ttl_bytes_recv ?s' = ttl_bytes_recv s1"
    using free_batch_queue_frame[of e "s1\<lparr> aggr_pkts_recv := 0 \<rparr>"]
    by (simp_all add: emit_def launches_append)
  have "ttl_bytes_recv s1 = ttl_bytes_recv ?s2"
    using pkt_loop_totals(1)[OF assms(3)] by simp
  also have "\<dots> = ttl_bytes_recv s"
    using free_batch_queue_frame[of e s] by simp
  finally show ?thesis using c fr by simp
qed

text \<open>
  With four batches unreclaimed and the table full, a burst of three packets is dropped at
  its first packet.
\<close>

theorem saturation_stops_burst_witness:
  "\<not> isl (compute (example_config 1 False) never_done (Some (data_burst 3 5000)) four_unreclaimed)
   \<and> last (trace (projr (compute (example_config 1 False) never_done (Some (data_burst 3 5000))
                            four_unreclaimed))) = LogError FellBehind
   \<and> launches (trace (projr (compute (example_config 1 False) never_done (Some (data_burst 3 5000))
                            four_unreclaimed)))
       = [(0, [1042]), (1, [1106]), (2, [1170]), (3, [1234])]
   \<and> h_dev_ptrs (projr (compute (example_config 1 False) never_done (Some (data_burst 3 5000))
                            four_unreclaimed)) 0 0 = 1298
   \<and> ttl_bytes_recv (projr (compute (example_config 1 False) never_done (Some (data_burst 3 5000))
                            four_unreclaimed)) = 320"
proof -
  let ?cfg = "example_config 1 False"
  let ?b = "data_burst 3 5000"
  let ?s1 = "(free_batch_queue never_done four_unreclaimed)\<lparr> ttl_pkts_recv :=
               ttl_pkts_recv (free_batch_queue never_done four_unreclaimed)
               + int (adv_net_get_num_pkts ?b) \<rparr>"
  let ?s' = "emit [LogError FellBehind] (free_batch_queue never_done (?s1\<lparr> aggr_pkts_recv := 0 \<rparr>))"
  have q: "adv_net_get_q_id ?b \<noteq> 0" by (simp add: example_defs adv_net_get_q_id_def)
  have k: "0 < adv_net_get_num_pkts ?b" by (simp add: example_defs adv_net_get_num_pkts_def)
  have l: "pkt_loop ?cfg never_done ?b [0..<0] ?s1 = Continue ?s1" by simp
  have fr: "aggr_pkts_recv ?s1 = 1" "launches (trace ?s1) = launches (trace four_unreclaimed)"
    "h_dev_ptrs ?s1 = h_dev_ptrs four_unreclaimed"
    using free_batch_queue_frame[of never_done four_unreclaimed]
    by (simp_all add: four_unreclaimed_eval)
  have f: "unat (batch_size ?cfg) \<le> aggr_pkts_recv ?s1"
    using fr(1) by (simp add: example_defs)
  have n: "length (batch_q (free_batch_queue never_done (?s1\<lparr> aggr_pkts_recv := 0 \<rparr>))) = num_concurrent"
    by (simp add: four_unreclaimed_eval free_batch_queue_Cons emit_def example_defs num_concurrent_def)
  from saturation_stops_burst[OF q k l f n]
  have c: "compute ?cfg never_done (Some ?b) four_unreclaimed = Inr ?s'"
    and r: "launches (trace ?s') = launches (trace ?s1)" "h_dev_ptrs ?s' = h_dev_ptrs ?s1"
      "ttl_bytes_recv ?s' = ttl_bytes_recv four_unreclaimed"
    by blast+
  have "last (trace ?s') = LogError FellBehind" by (simp add: emit_def)
  then show ?thesis
    unfolding c using r fr by (simp add: four_unreclaimed_eval)
qed

text \<open>
  After the call that reported the saturation, the next call counts its packet and
  stores its pointer in the table of slot 0.
\<close>

theorem saturation_not_final:
  "compute (example_config 1 False) never_done (Some (data_burst 6 1000))
     (initialize (example_config 1 False) blank) = Inr fell_behind
   \<and> saturation_reports fell_behind = 1
   \<and> \<not> isl (compute (example_config 1 False) never_done (Some (data_burst 1 5000)) fell_behind)
   \<and> ttl_pkts_recv (projr (compute (example_config 1 False) never_done (Some (data_burst 1 5000))
                              fell_behind)) = ttl_pkts_recv fell_behind + 1
   \<and> h_dev_ptrs fell_behind 0 0 = 1298
   \<and> h_dev_ptrs (projr (compute (example_config 1 False) never_done (Some (data_burst 1 5000))
                           fell_behind)) 0 0 = 5042"
proof -
  have q: "batch_q fell_behind = slot_record 0 # [slot_record 1, slot_record 2, slot_record 3]"
    by (simp add: fell_behind_eval)
  have "saturation_reports fell_behind = 1
   \<and> \<not> isl (compute (example_config 1 False) never_done (Some (data_burst 1 5000)) fell_behind)
   \<and> ttl_pkts_recv (projr (compute (example_config 1 False) never_done (Some (data_burst 1 5000))
                              fell_behind)) = ttl_pkts_recv fell_behind + 1
   \<and> h_dev_ptrs fell_behind 0 0 = 1298
   \<and> h_dev_ptrs (projr (compute (example_config 1 False) never_done (Some (data_burst 1 5000))
                           fell_behind)) 0 0 = 5042"
    by (simp add: fell_behind_eval(2-) compute_def free_batch_queue_Cons[OF q] process_pkt_def
          store_ptr_def emit_def adv_net_get_q_id_def adv_net_get_num_pkts_def
          adv_net_get_pkt_ptr_def adv_net_get_burst_tot_byte_def Let_def upt_rec example_defs)
  with fell_behind_eval(1) show ?thesis by (simp only: simp_thms)
qed

subsection \<open>C2: the completion marker\<close>

text \<open>
  \<^bold>\<open>C2.\<close> Every launch of the reorder kernel should be followed at once by the
  record of the slot's completion event on the slot's stream, and completion should be
  seen by polling only. The source records the event only between
  \<^verbatim>\<open>#if DEBUG_CUDA_TIMES == 1\<close> and \<^verbatim>\<open>#endif\<close>. Without the switch, the calls of
  \<^verbatim>\<open>compute\<close> for a burst of two packets with batch size 1 are the launch and
  \<^verbatim>\<open>cudaGetLastError\<close>: the event \<^verbatim>\<open>events_[0]\<close> goes into the queue and
  is never recorded. With the switch, the record follows the launch and is itself followed
  by the blocking \<^verbatim>\<open>cudaEventSynchronize\<close>.
\<close>

theorem marker_not_recorded:
  "trace (projr (compute (example_config 1 False) never_done (Some (data_burst 2 1000))
                   (initialize (example_config 1 False) blank)))
     = [KernelLaunch 0 [1042] 9058 1 0, GetLastError True]
   \<and> map evt (batch_q (projr (compute (example_config 1 False) never_done
                               (Some (data_burst 2 1000))
                               (initialize (example_config 1 False) blank)))) = [events 0]
   \<and> trace (projr (compute (example_config 1 True) never_done (Some (data_burst 2 1000))
                   (initialize (example_config 1 True) blank)))
     = [EventRecord (events_start 0) 0, KernelLaunch 0 [1042] 9058 1 0,
        EventRecord (events 0) 0, EventSynchronize (events 0),
        EventElapsedTime (events_start 0) (events 0), LogInfo (AggrTimes 0),
        GetLastError True]"
  by (simp add: eval_defs example_defs)

subsection \<open>C3: tables of slots in flight\<close>


subsection \<open>C4: at most four batches in flight\<close>

text \<open>
  \<^bold>\<open>C4.\<close> In every reachable state the queue holds at most \<open>num_concurrent\<close>
  (four) batch records; and when a full table meets a queue that still holds
  \<open>num_concurrent\<close> records after the reclaim pass, the loop body returns with the report
  and without a launch.
\<close>

theorem in_flight_bound:
  assumes "reachable cfg s"
  shows "length (batch_q s) \<le> num_concurrent
       \<and> (unat (batch_size cfg) \<le> aggr_pkts_recv s
          \<and> length (batch_q (free_batch_queue e (s\<lparr> aggr_pkts_recv := 0 \<rparr>))) = num_concurrent
          \<longrightarrow> process_pkt cfg e burst pkt_idx s
                = Return (emit [LogError FellBehind] (free_batch_queue e (s\<lparr> aggr_pkts_recv := 0 \<rparr>)))
              \<and> launches (trace (emit [LogError FellBehind]
                    (free_batch_queue e (s\<lparr> aggr_pkts_recv := 0 \<rparr>)))) = launches (trace s))"
proof -
  have "length (batch_q s) \<le> num_concurrent"
    using reachable_tracker_inv[OF assms] by (simp add: tracker_inv_def)
  moreover have "launches (trace (emit [LogError FellBehind]
                    (free_batch_queue e (s\<lparr> aggr_pkts_recv := 0 \<rparr>)))) = launches (trace s)"
    using free_batch_queue_frame[of e "s\<lparr> aggr_pkts_recv := 0 \<rparr>"]
    by (simp add: emit_def launches_append)
  ultimately show ?thesis by (simp add: process_pkt_def Let_def)
qed

text \<open>
  With four batches unreclaimed, the next packet launches nothing.
\<close>

theorem in_flight_bound_witness:
  "length (batch_q four_unreclaimed) \<le> num_concurrent
   \<and> process_pkt (example_config 1 False) never_done (data_burst 1 5000) 0 four_unreclaimed
       = Return (emit [LogError FellBehind]
                  (free_batch_queue never_done (four_unreclaimed\<lparr> aggr_pkts_recv := 0 \<rparr>)))
   \<and> launches (trace (emit [LogError FellBehind]
                  (free_batch_queue never_done (four_unreclaimed\<lparr> aggr_pkts_recv := 0 \<rparr>))))
       = [(0, [1042]), (1, [1106]), (2, [1170]), (3, [1234])]"
proof -
  have h: "unat (batch_size (example_config 1 False)) \<le> aggr_pkts_recv four_unreclaimed
      \<and> length (batch_q (free_batch_queue never_done (four_unreclaimed\<lparr> aggr_pkts_recv := 0 \<rparr>)))
          = num_concurrent"
    by (simp add: four_unreclaimed_eval free_batch_queue_Cons emit_def example_defs
          num_concurrent_def)
  from in_flight_bound[OF four_unreclaimed_reachable, of never_done "data_burst 1 5000" 0] h
  show ?thesis by (simp add: four_unreclaimed_eval)
qed

subsection \<open>C5: the number and the content of the batches\<close>

text \<open>
  \<^bold>\<open>C5.\<close> Let the operator, with a batch size \<open>B > 0\<close>, process a sequence of
  inputs with \<open>P\<close> data-queue packets in all, without a CUDA error and without a
  saturation report. Then it launches \<open>(P - 1) div B\<close> batches (none for \<open>P = 0\<close>): a full
  table is launched only when the next data packet arrives, so the count is one less than
  the ceiling of \<open>P / B\<close> the claim names whenever \<open>P > 0\<close>. Launch \<open>k\<close> goes to slot
  \<open>k mod num_concurrent\<close> with exactly the \<open>B\<close> payload pointers of the packets
  \<open>k * B, \<dots>, k * B + B - 1\<close> in arrival order.
\<close>

theorem launched_batches:
  assumes "0 < unat (batch_size cfg)"
    and "run cfg e inps (initialize cfg mem) = Inr s"
    and "saturation_reports s = 0"
  shows "length (launches (trace s)) = (length (arrivals cfg inps) - 1) div unat (batch_size cfg)
       \<and> (\<forall>k<length (launches (trace s)).
            launches (trace s) ! k =
              (k mod num_concurrent,
               take (unat (batch_size cfg)) (drop (k * unat (batch_size cfg)) (arrivals cfg inps)))
          \<and> length (snd (launches (trace s) ! k)) = unat (batch_size cfg))"
proof -
  let ?B = "unat (batch_size cfg)"
  have "saturation_reports (initialize cfg mem) = 0"
    by (simp add: saturation_reports_def initialize_def)
  with assms(3) have "saturation_reports s = saturation_reports (initialize cfg mem)" by simp
  from batched_run[OF refl assms(1) batched_initialize assms(2) this]
  obtain L where b: "batched ?B (arrivals cfg inps) L s" by auto
  have L: "L = (length (arrivals cfg inps) - 1) div ?B" by (rule batched_count[OF b assms(1)])
  have ls: "launches (trace s)
      = map (\<lambda>k. (k mod num_concurrent, take ?B (drop (k * ?B) (arrivals cfg inps)))) [0..<L]"
    using b by (simp add: batched_def)
  have len: "L * ?B \<le> length (arrivals cfg inps)" using b by (simp add: batched_def)
  have "\<forall>k<L. ?B \<le> length (drop (k * ?B) (arrivals cfg inps))"
  proof (intro allI impI)
    fix k assume "k < L"
    then have "Suc k * ?B \<le> L * ?B" by (intro mult_le_mono1) simp
    with len show "?B \<le> length (drop (k * ?B) (arrivals cfg inps))" by simp
  qed
  with ls L show ?thesis by simp
qed

text \<open>
  Five data packets in two bursts, with a call without input and a control burst between
  them, give two batches of two.
\<close>

theorem launched_batches_witness:
  "launches (trace (projr (run (example_config 2 False) always_done mixed_inputs
                             (initialize (example_config 2 False) blank))))
     = [(0, [1042, 1106]), (1, [1170, 2042])]
   \<and> arrivals (example_config 2 False) mixed_inputs = [1042, 1106, 1170, 2042, 2106]"
proof -
  let ?cfg = "example_config 2 False"
  let ?s = "projr (run ?cfg always_done mixed_inputs (initialize ?cfg blank))"
  have B: "unat (batch_size ?cfg) = 2" by (simp add: example_config_def)
  then have pos: "0 < unat (batch_size ?cfg)" by simp
  have arr: "arrivals ?cfg mixed_inputs = [1042, 1106, 1170, 2042, 2106]"
    by (simp add: mixed_inputs_def payloads_def adv_net_get_q_id_def adv_net_get_num_pkts_def
          adv_net_get_pkt_ptr_def upt_rec example_defs)
  from launched_batches[OF pos mixed_run_eval]
  have len: "length (launches (trace ?s)) = 2"
    and nth: "\<forall>k<length (launches (trace ?s)). launches (trace ?s) ! k =
        (k mod num_concurrent, take 2 (drop (k * 2) [1042, 1106, 1170, 2042, 2106]))"
    by (simp_all add: B arr)
  from nth len have "launches (trace ?s) ! 0 = (0, [1042, 1106])"
    "launches (trace ?s) ! 1 = (1, [1170, 2042])"
    by (simp_all add: num_concurrent_def)
  with len have "launches (trace ?s) = [(0, [1042, 1106]), (1, [1170, 2042])]"
    by (intro nth_equalityI) (auto simp: less_Suc_eq_0_disj numeral_2_eq_2)
  with arr show ?thesis by simp
qed

text \<open>
  One burst of five data packets with batch size 2 and no saturation: two launches, while
  the ceiling of \<open>5 / 2\<close> is three.
\<close>

theorem ceiling_count_refuted:
  "\<not> isl (run (example_config 2 False) always_done [Some (data_burst 5 1000)]
            (initialize (example_config 2 False) blank))
   \<and> saturation_reports (projr (run (example_config 2 False) always_done [Some (data_burst 5 1000)]
                                 (initialize (example_config 2 False) blank))) = 0
   \<and> length (arrivals (example_config 2 False) [Some (data_burst 5 1000)]) = 5
   \<and> length (launches (trace (projr (run (example_config 2 False) always_done
                                        [Some (data_burst 5 1000)]
                                        (initialize (example_config 2 False) blank))))) = 2
   \<and> (5 + 2 - 1) div 2 = (3::nat)"
  by (simp add: eval_defs example_defs)

subsection \<open>C6: the launch comes with the first packet of the next batch\<close>

text \<open>
  \<^bold>\<open>C6.\<close> When a packet meets a full table (and the queue has room after the
  reclaim pass and the device reports no error), the table of the current slot is launched
  as it stands, the slot index advances, and the packet is stored as entry 0 of the next
  slot. When the table is not full, nothing is launched and the packet is stored in the
  current slot. In particular one burst of five data packets with batch size 2, given to a
  fresh operator, launches two batches with the packets 0, 1 and 2, 3, leaves packet 4
  pending as the only entry of slot 2, and counts five packets.
\<close>

theorem launch_on_overflowing_packet:
  "(0 < unat (batch_size cfg) \<and> unat (batch_size cfg) \<le> aggr_pkts_recv s
      \<and> length (batch_q (free_batch_queue e (s\<lparr> aggr_pkts_recv := 0 \<rparr>))) \<noteq> num_concurrent
      \<and> launch_ok e (clock (free_batch_queue e (s\<lparr> aggr_pkts_recv := 0 \<rparr>)))
    \<longrightarrow> (\<exists>s'. process_pkt cfg e burst pkt_idx s = Continue s'
         \<and> launches (trace s') = launches (trace s) @
              [(cur_batch_idx s, map (h_dev_ptrs s (cur_batch_idx s)) [0..<unat (batch_size cfg)])]
         \<and> cur_batch_idx s' = (cur_batch_idx s + 1) mod num_concurrent
         \<and> h_dev_ptrs s' = (h_dev_ptrs s)
              (cur_batch_idx s' := (h_dev_ptrs s (cur_batch_idx s'))
                 (0 := adv_net_get_pkt_ptr burst pkt_idx + unat (header_size cfg)))
         \<and> aggr_pkts_recv s' = 1))
   \<and> (aggr_pkts_recv s < unat (batch_size cfg)
    \<longrightarrow> (\<exists>s'. process_pkt cfg e burst pkt_idx s = Continue s'
         \<and> launches (trace s') = launches (trace s)
         \<and> cur_batch_idx s' = cur_batch_idx s
         \<and> h_dev_ptrs s' = (h_dev_ptrs s)
              (cur_batch_idx s := (h_dev_ptrs s (cur_batch_idx s))
                 (aggr_pkts_recv s := adv_net_get_pkt_ptr burst pkt_idx + unat (header_size cfg)))
         \<and> aggr_pkts_recv s' = aggr_pkts_recv s + 1))
   \<and> (batch_size cfg = 2 \<and> adv_net_get_q_id burst5 \<noteq> 0 \<and> adv_net_get_num_pkts burst5 = 5
       \<and> (\<forall>t. launch_ok e t)
    \<longrightarrow> (\<exists>s'. compute cfg e (Some burst5) (initialize cfg mem) = Inr s'
         \<and> launches (trace s') =
             [(0, [adv_net_get_pkt_ptr burst5 0 + unat (header_size cfg),
                   adv_net_get_pkt_ptr burst5 1 + unat (header_size cfg)]),
              (1, [adv_net_get_pkt_ptr burst5 2 + unat (header_size cfg),
                   adv_net_get_pkt_ptr burst5 3 + unat (header_size cfg)])]
         \<and> aggr_pkts_recv s' = 1 \<and> cur_batch_idx s' = 2
         \<and> h_dev_ptrs s' 2 0 = adv_net_get_pkt_ptr burst5 4 + unat (header_size cfg)
         \<and> ttl_pkts_recv s' = 5))"
  using full_table_launches[of cfg s e burst pkt_idx] partial_table_stores[of s cfg e burst pkt_idx]
        five_packets_batch_two[of cfg burst5 e mem]
  by blast

text \<open>
  The three parts at concrete inputs: a packet that meets a full table, a packet that meets
  an empty one, and the burst of five.
\<close>

theorem launch_on_overflowing_packet_witness:
  "(\<exists>s'. process_pkt (example_config 2 False) never_done (data_burst 1 5000) 0 full_table
            = Continue s'
        \<and> launches (trace s') = [(0, [1042, 1106])] \<and> cur_batch_idx s' = 1
        \<and> h_dev_ptrs s' 1 0 = 5042 \<and> aggr_pkts_recv s' = 1)
 \<and> (\<exists>s'. process_pkt (example_config 2 False) never_done (data_burst 1 5000) 0
             (initialize (example_config 2 False) blank) = Continue s'
        \<and> launches (trace s') = [] \<and> cur_batch_idx s' = 0
        \<and> h_dev_ptrs s' 0 0 = 5042 \<and> aggr_pkts_recv s' = 1)
 \<and> (\<exists>s'. compute (example_config 2 False) never_done (Some (data_burst 5 1000))
             (initialize (example_config 2 False) blank) = Inr s'
        \<and> launches (trace s') = [(0, [1042, 1106]), (1, [1170, 1234])]
        \<and> aggr_pkts_recv s' = 1 \<and> cur_batch_idx s' = 2 \<and> h_dev_ptrs s' 2 0 = 1298
        \<and> ttl_pkts_recv s' = 5)"
proof -
  let ?cfg = "example_config 2 False"
  let ?init = "initialize ?cfg blank"
  let ?p = "adv_net_get_pkt_ptr (data_burst 1 5000) 0 + unat (header_size ?cfg)"
  have p: "?p = 5042" by (simp add: example_defs adv_net_get_pkt_ptr_def)
  have full: "0 < unat (batch_size ?cfg) \<and> unat (batch_size ?cfg) \<le> aggr_pkts_recv full_table
      \<and> length (batch_q (free_batch_queue never_done (full_table\<lparr> aggr_pkts_recv := 0 \<rparr>))) \<noteq> num_concurrent
      \<and> launch_ok never_done (clock (free_batch_queue never_done (full_table\<lparr> aggr_pkts_recv := 0 \<rparr>)))"
    by (simp add: full_table_eval free_batch_queue_Nil example_defs num_concurrent_def)
  have part: "aggr_pkts_recv ?init < unat (batch_size ?cfg)"
    by (simp add: initialize_def example_defs)
  have scen: "batch_size ?cfg = 2 \<and> adv_net_get_q_id (data_burst 5 1000) \<noteq> 0
       \<and> adv_net_get_num_pkts (data_burst 5 1000) = 5 \<and> (\<forall>t. launch_ok never_done t)"
    by (simp add: example_defs adv_net_get_q_id_def adv_net_get_num_pkts_def)
  from launch_on_overflowing_packet[of ?cfg full_table never_done "data_burst 1 5000" 0] full
  obtain s1 where s1: "process_pkt ?cfg never_done (data_burst 1 5000) 0 full_table = Continue s1"
     "launches (trace s1) = launches (trace full_table) @
        [(cur_batch_idx full_table,
          map (h_dev_ptrs full_table (cur_batch_idx full_table)) [0..<unat (batch_size ?cfg)])]"
     "cur_batch_idx s1 = (cur_batch_idx full_table + 1) mod num_concurrent"
     "h_dev_ptrs s1 = (h_dev_ptrs full_table)
        (cur_batch_idx s1 := (h_dev_ptrs full_table (cur_batch_idx s1))(0 := ?p))"
     "aggr_pkts_recv s1 = 1"
    by blast
  have a: "\<exists>s'. process_pkt ?cfg never_done (data_burst 1 5000) 0 full_table = Continue s'
        \<and> launches (trace s') = [(0, [1042, 1106])] \<and> cur_batch_idx s' = 1
        \<and> h_dev_ptrs s' 1 0 = 5042 \<and> aggr_pkts_recv s' = 1"
    using s1 p
    by (intro exI[of _ s1]) (simp add: full_table_eval num_concurrent_def example_config_def upt_rec)
  from launch_on_overflowing_packet[of ?cfg ?init never_done "data_burst 1 5000" 0] part
  obtain s2 where s2: "process_pkt ?cfg never_done (data_burst 1 5000) 0 ?init = Continue s2"
     "launches (trace s2) = launches (trace ?init)"
     "cur_batch_idx s2 = cur_batch_idx ?init"
     "h_dev_ptrs s2 = (h_dev_ptrs ?init)
        (cur_batch_idx ?init := (h_dev_ptrs ?init (cur_batch_idx ?init))(aggr_pkts_recv ?init := ?p))"
     "aggr_pkts_recv s2 = aggr_pkts_recv ?init + 1"
    by blast
  have b: "\<exists>s'. process_pkt ?cfg never_done (data_burst 1 5000) 0 ?init = Continue s'
        \<and> launches (trace s') = [] \<and> cur_batch_idx s' = 0
        \<and> h_dev_ptrs s' 0 0 = 5042 \<and> aggr_pkts_recv s' = 1"
    using s2 p by (intro exI[of _ s2]) (simp add: initialize_def)
  from launch_on_overflowing_packet[of ?cfg _ never_done _ _ "data_burst 5 1000" blank] scen
  obtain s3 where s3: "compute ?cfg never_done (Some (data_burst 5 1000)) ?init = Inr s3"
     "launches (trace s3) =
             [(0, [adv_net_get_pkt_ptr (data_burst 5 1000) 0 + unat (header_size ?cfg),
                   adv_net_get_pkt_ptr (data_burst 5 1000) 1 + unat (header_size ?cfg)]),
              (1, [adv_net_get_pkt_ptr (data_burst 5 1000) 2 + unat (header_size ?cfg),
                   adv_net_get_pkt_ptr (data_burst 5 1000) 3 + unat (header_size ?cfg)])]"
     "aggr_pkts_recv s3 = 1" "cur_batch_idx s3 = 2"
     "h_dev_ptrs s3 2 0 = adv_net_get_pkt_ptr (data_burst 5 1000) 4 + unat (header_size ?cfg)"
     "ttl_pkts_recv s3 = 5"
    by blast
  have c: "\<exists>s'. compute ?cfg never_done (Some (data_burst 5 1000)) ?init = Inr s'
        \<and> launches (trace s') = [(0, [1042, 1106]), (1, [1170, 1234])]
        \<and> aggr_pkts_recv s' = 1 \<and> cur_batch_idx s' = 2 \<and> h_dev_ptrs s' 2 0 = 1298
        \<and> ttl_pkts_recv s' = 5"
    using s3 by (intro exI[of _ s3]) (simp add: example_defs adv_net_get_pkt_ptr_def)
  from a b c show ?thesis by blast
qed

subsection \<open>C7: bursts on queue 0\<close>

text \<open>
  \<^bold>\<open>C7.\<close> A call of \<^verbatim>\<open>compute\<close> with a burst on queue 0 does what the
  reclaim pass at its start does and nothing else, whatever the burst holds: no pointer
  table changes, the totals of packets and bytes, the fill count, the slot index and the
  record under construction stay as they are, and no kernel is launched.
\<close>

theorem control_queue_ignored:
  assumes "adv_net_get_q_id burst = 0"
  shows "compute cfg e (Some burst) s = Inr (free_batch_queue e s)
       \<and> h_dev_ptrs (free_batch_queue e s) = h_dev_ptrs s
       \<and> ttl_pkts_recv (free_batch_queue e s) = ttl_pkts_recv s
       \<and> ttl_bytes_recv (free_batch_queue e s) = ttl_bytes_recv s
       \<and> aggr_pkts_recv (free_batch_queue e s) = aggr_pkts_recv s
       \<and> cur_batch_idx (free_batch_queue e s) = cur_batch_idx s
       \<and> cur_batch (free_batch_queue e s) = cur_batch s
       \<and> launches (trace (free_batch_queue e s)) = launches (trace s)"
  using assms free_batch_queue_frame[of e s] by (simp add: compute_def Let_def)

text \<open>
  A control burst of three packets, given to the operator with four batches unreclaimed.
\<close>

theorem control_queue_ignored_witness:
  "compute (example_config 1 False) never_done (Some (control_burst 3 7000)) four_unreclaimed
     = Inr (free_batch_queue never_done four_unreclaimed)
   \<and> h_dev_ptrs (free_batch_queue never_done four_unreclaimed) = h_dev_ptrs four_unreclaimed
   \<and> ttl_pkts_recv (free_batch_queue never_done four_unreclaimed) = 5
   \<and> ttl_bytes_recv (free_batch_queue never_done four_unreclaimed) = 320
   \<and> launches (trace (free_batch_queue never_done four_unreclaimed))
       = [(0, [1042]), (1, [1106]), (2, [1170]), (3, [1234])]"
proof -
  have "adv_net_get_q_id (control_burst 3 7000) = 0"
    by (simp add: control_burst_def adv_net_get_q_id_def)
  from control_queue_ignored[OF this, of "example_config 1 False" never_done four_unreclaimed]
  show ?thesis by (simp add: four_unreclaimed_eval)
qed

subsection \<open>C8: the reclaim pass\<close>

text \<open>
  \<^bold>\<open>C8.\<close> \<open>free_batch_queue\<close> always returns, and all it calls is
  \<^verbatim>\<open>cudaEventQuery\<close>, which does not block. It removes the first \<open>k\<close> records of
  the queue, where \<open>k\<close> is such that each of them was polled as complete and the record
  after them, if any, was polled as incomplete; it polls these \<open>k\<close> records and that one
  and no record behind it. If the front of a non-empty queue is polled as incomplete, the
  queue stays as it is.
\<close>

theorem free_batch_queue_prefix:
  "(\<exists>k\<le>length (batch_q s).
       batch_q (free_batch_queue e s) = drop k (batch_q s)
     \<and> (\<forall>i<k. event_done e (clock s + i) (evt (batch_q s ! i)))
     \<and> (k < length (batch_q s) \<longrightarrow> \<not> event_done e (clock s + k) (evt (batch_q s ! k)))
     \<and> trace (free_batch_queue e s) =
         trace s @ map (\<lambda>i. EventQuery (evt (batch_q s ! i)) (i < k))
                       [0..<min (Suc k) (length (batch_q s))])
   \<and> (batch_q s \<noteq> [] \<and> \<not> event_done e (clock s) (evt (hd (batch_q s)))
        \<longrightarrow> batch_q (free_batch_queue e s) = batch_q s)"
proof -
  have hd: "batch_q s \<noteq> [] \<and> \<not> event_done e (clock s) (evt (hd (batch_q s)))
        \<longrightarrow> batch_q (free_batch_queue e s) = batch_q s"
    by (cases "batch_q s") (auto simp: free_batch_queue_Cons emit_def)
  from free_batch_queue_drop[of s e] hd show ?thesis by blast
qed

text \<open>
  Three records of which the first is complete: it is removed, the second is polled and
  stays, the third is not polled. With no event complete the queue is unchanged.
\<close>

theorem free_batch_queue_prefix_witness:
  "batch_q (free_batch_queue first_done three_in_flight) = [slot_record 1, slot_record 2]
   \<and> trace (free_batch_queue first_done three_in_flight)
       = [EventQuery (events 0) True, EventQuery (events 1) False]
   \<and> batch_q (free_batch_queue never_done three_in_flight) = batch_q three_in_flight"
proof -
  let ?q = "batch_q three_in_flight"
  have q: "?q = [slot_record 0, slot_record 1, slot_record 2]" "clock three_in_flight = 0"
    "trace three_in_flight = []"
    by (simp_all add: three_in_flight_def initialize_def)
  from free_batch_queue_prefix[of three_in_flight first_done]
  obtain k where k: "k \<le> length ?q"
    "batch_q (free_batch_queue first_done three_in_flight) = drop k ?q"
    "\<forall>i<k. event_done first_done (clock three_in_flight + i) (evt (?q ! i))"
    "k < length ?q \<longrightarrow> \<not> event_done first_done (clock three_in_flight + k) (evt (?q ! k))"
    "trace (free_batch_queue first_done three_in_flight) =
       trace three_in_flight @ map (\<lambda>i. EventQuery (evt (?q ! i)) (i < k)) [0..<min (Suc k) (length ?q)]"
    by blast
  have "k = 1"
  proof (rule ccontr)
    assume "k \<noteq> 1"
    then have "k = 0 \<or> 1 < k" by arith
    with k(3)[rule_format, of 1] k(4) show False
      by (auto simp: q first_done_def slot_record_def)
  qed
  with k(2,5) have a: "batch_q (free_batch_queue first_done three_in_flight) = [slot_record 1, slot_record 2]"
    "trace (free_batch_queue first_done three_in_flight)
       = [EventQuery (events 0) True, EventQuery (events 1) False]"
    by (simp_all add: q slot_record_def upt_rec)
  have "?q \<noteq> [] \<and> \<not> event_done never_done (clock three_in_flight) (evt (hd ?q))"
    by (simp add: q never_done_def)
  with free_batch_queue_prefix[of three_in_flight never_done]
  have "batch_q (free_batch_queue never_done three_in_flight) = ?q" by blast
  with a show ?thesis by simp
qed

subsection \<open>C9: what a batch record holds\<close>

text \<open>
  \<^bold>\<open>C9.\<close> In every reachable state each batch record in the queue holds no burst:
  its count of bursts is zero and its burst pointers are all null, since the operator never
  stores a burst in the record under construction. The records in the queue are those of
  the launches made last, in order, and each holds the completion event of the slot its
  launch went to. Whatever the operator does next (a reclaim pass, one pass through the
  loop body, a whole call of \<^verbatim>\<open>compute\<close>), records leave the queue at its front
  only, and each record that leaves was polled as complete by a
  \<^verbatim>\<open>cudaEventQuery\<close> of that step; all other records stay, in order, before
  the records the step appends. The claim that the record retains the bursts of its batch
  fails, as the theorem after the next one shows.
\<close>

theorem batch_records_hold_no_bursts:
  assumes "reachable cfg s"
  shows "(\<forall>r\<in>set (batch_q s).
            num_bursts r = 0 \<and> bursts r = replicate MAX_ANO_BURSTS None
          \<and> (\<exists>n<num_concurrent. evt r = events n))
       \<and> length (batch_q s) \<le> length (launches (trace s))
       \<and> map evt (batch_q s) =
           map (\<lambda>l. events (fst l))
               (drop (length (launches (trace s)) - length (batch_q s)) (launches (trace s)))
       \<and> (\<forall>s'. s' = free_batch_queue e s
                \<or> process_pkt cfg e burst pkt_idx s = Continue s'
                \<or> process_pkt cfg e burst pkt_idx s = Return s'
                \<or> compute cfg e burst_opt s = Inr s'
            \<longrightarrow> (\<exists>k\<le>length (batch_q s). \<exists>new ext.
                    batch_q s' = drop k (batch_q s) @ new \<and> trace s' = trace s @ ext
                  \<and> (\<forall>i<k. EventQuery (evt (batch_q s ! i)) True \<in> set ext)))"
proof -
  have a: "\<forall>r\<in>set (batch_q s).
            num_bursts r = 0 \<and> bursts r = replicate MAX_ANO_BURSTS None
          \<and> (\<exists>n<num_concurrent. evt r = events n)"
    using reachable_tracker_inv[OF assms] by (auto simp: tracker_inv_def no_bursts_def)
  have b: "length (batch_q s) \<le> length (launches (trace s))"
    "map evt (batch_q s) =
           map (\<lambda>l. events (fst l))
               (drop (length (launches (trace s)) - length (batch_q s)) (launches (trace s)))"
    using reachable_queue_matches_launches[OF assms] by (simp_all add: queue_matches_launches_def)
  have c: "kept_until_polled s s'"
    if "s' = free_batch_queue e s
        \<or> process_pkt cfg e burst pkt_idx s = Continue s'
        \<or> process_pkt cfg e burst pkt_idx s = Return s'
        \<or> compute cfg e burst_opt s = Inr s'" for s'
    using that kept_free_batch_queue[of s e] kept_process_pkt[of cfg e burst pkt_idx s s']
      kept_compute[of cfg e burst_opt s s'] by blast
  from a b c show ?thesis
    unfolding kept_until_polled_def by blast
qed

text \<open>
  The four records of the operator with four batches unreclaimed: they hold the events of
  the four launches and no burst, and a call with a control burst on a device where only
  \<^verbatim>\<open>events_[0]\<close> is complete removes the first one after the poll that says so.
\<close>

theorem batch_records_hold_no_bursts_witness:
  "slot_record 0 \<in> set (batch_q four_unreclaimed)
   \<and> num_bursts (slot_record 0) = 0
   \<and> bursts (slot_record 0) = replicate MAX_ANO_BURSTS None
   \<and> map evt (batch_q four_unreclaimed) = [events 0, events 1, events 2, events 3]
   \<and> map fst (launches (trace four_unreclaimed)) = [0, 1, 2, 3]
   \<and> compute (example_config 1 False) first_done (Some (control_burst 3 7000)) four_unreclaimed
       = Inr (free_batch_queue first_done four_unreclaimed)
   \<and> batch_q (free_batch_queue first_done four_unreclaimed)
       = [slot_record 1, slot_record 2, slot_record 3]
   \<and> EventQuery (events 0) True
        \<in> set (drop (length (trace four_unreclaimed))
                 (trace (free_batch_queue first_done four_unreclaimed)))"
proof -
  let ?cfg = "example_config 1 False"
  let ?s = four_unreclaimed
  let ?s' = "free_batch_queue first_done four_unreclaimed"
  note inst = batch_records_hold_no_bursts[OF four_unreclaimed_reachable,
      of first_done "control_burst 3 7000" 0 "Some (control_burst 3 7000)"]
  have q: "batch_q ?s = slot_record 0 # slot_record 1 # [slot_record 2, slot_record 3]"
    by (simp add: four_unreclaimed_eval)
  have q': "batch_q ?s' = [slot_record 1, slot_record 2, slot_record 3]"
    by (simp add: free_batch_queue_Cons[OF q] free_batch_queue_Cons emit_def first_done_def
          slot_record_def)
  have cmp: "compute ?cfg first_done (Some (control_burst 3 7000)) ?s = Inr ?s'"
    by (simp add: compute_def Let_def adv_net_get_q_id_def control_burst_def)
  from inst have ball: "\<forall>r\<in>set (batch_q ?s).
      num_bursts r = 0 \<and> bursts r = replicate MAX_ANO_BURSTS None" by blast
  have m: "slot_record 0 \<in> set (batch_q ?s)" by (simp add: q)
  with ball have nb: "num_bursts (slot_record 0) = 0"
    "bursts (slot_record 0) = replicate MAX_ANO_BURSTS None" by blast+
  from inst have "map evt (batch_q ?s) =
      map (\<lambda>l. events (fst l))
          (drop (length (launches (trace ?s)) - length (batch_q ?s)) (launches (trace ?s)))"
    by blast
  then have ev: "map evt (batch_q ?s) = [events 0, events 1, events 2, events 3]"
    by (simp add: four_unreclaimed_eval)
  from inst cmp obtain k new ext where k: "k \<le> length (batch_q ?s)"
    "batch_q ?s' = drop k (batch_q ?s) @ new" "trace ?s' = trace ?s @ ext"
    "\<forall>i<k. EventQuery (evt (batch_q ?s ! i)) True \<in> set ext"
    by blast
  have "k \<noteq> 0"
  proof
    assume "k = 0"
    with k(2) have "length (batch_q ?s') \<ge> length (batch_q ?s)" by simp
    then show False by (simp add: q q')
  qed
  with k(4) have "EventQuery (evt (batch_q ?s ! 0)) True \<in> set ext" by simp
  then have polled: "EventQuery (events 0) True \<in> set (drop (length (trace ?s)) (trace ?s'))"
    by (simp add: k(3) q slot_record_def)
  from m nb ev cmp q' polled show ?thesis
    by (simp add: four_unreclaimed_eval)
qed

text \<open>
  The batch of the two packets of a burst is launched by the next packet; the record pushed
  for it holds no burst.
\<close>

theorem batch_record_without_burst:
  "launches (trace full_table) = []
   \<and> launches (trace (projr (compute (example_config 2 False) never_done
                               (Some (data_burst 1 5000)) full_table))) = [(0, [1042, 1106])]
   \<and> batch_q (projr (compute (example_config 2 False) never_done
                        (Some (data_burst 1 5000)) full_table))
       = [\<lparr> bursts = replicate MAX_ANO_BURSTS None, num_bursts = 0, evt = events 0 \<rparr>]"
  by (simp add: full_table_eval compute_def free_batch_queue_Nil process_pkt_def launch_def
        store_ptr_def emit_def launches_append adv_net_get_q_id_def adv_net_get_num_pkts_def
        adv_net_get_pkt_ptr_def adv_net_get_burst_tot_byte_def Let_def upt_rec example_defs
        num_concurrent_def)

subsection \<open>C10: the totals of a burst cut short by saturation\<close>

text \<open>
  \<^bold>\<open>C10.\<close> If a call of \<^verbatim>\<open>compute\<close> with a data-queue burst returns with
  a new saturation report, then the total of packets has grown by the packet count of the
  whole burst and the total of bytes has not changed.
\<close>

theorem saturation_abort_totals:
  assumes "adv_net_get_q_id burst \<noteq> 0"
    and "compute cfg e (Some burst) s = Inr s'"
    and "saturation_reports s < saturation_reports s'"
  shows "ttl_pkts_recv s' = ttl_pkts_recv s + int (adv_net_get_num_pkts burst)
       \<and> ttl_bytes_recv s' = ttl_bytes_recv s"
proof -
  let ?s1 = "free_batch_queue e s"
  let ?s2 = "?s1\<lparr> ttl_pkts_recv := ttl_pkts_recv ?s1 + int (adv_net_get_num_pkts burst) \<rparr>"
  have s2: "ttl_bytes_recv ?s2 = ttl_bytes_recv s"
           "ttl_pkts_recv ?s2 = ttl_pkts_recv s + int (adv_net_get_num_pkts burst)"
           "saturation_reports ?s2 = saturation_reports s"
    using free_batch_queue_frame[of e s] by (simp_all add: saturation_reports_def)
  show ?thesis
  proof (cases "pkt_loop cfg e burst [0..<adv_net_get_num_pkts burst] ?s2")
    case (Continue s3)
    with assms(1,2) have "s' = s3\<lparr> ttl_bytes_recv := ttl_bytes_recv s3 + adv_net_get_burst_tot_byte burst \<rparr>"
      by (simp add: compute_def Let_def)
    then have "saturation_reports s' = saturation_reports s"
      using pkt_loop_totals(1)[OF Continue] s2 by (simp add: saturation_reports_def)
    with assms(3) show ?thesis by simp
  next
    case (Return s3)
    with assms(1,2) have "s' = s3" by (simp add: compute_def Let_def)
    with pkt_loop_totals(2)[OF Return] s2 show ?thesis by simp
  next
    case (Abort f)
    with assms(1,2) show ?thesis by (simp add: compute_def Let_def)
  qed
qed

text \<open>
  The burst of six packets that is cut short at its sixth packet: six packets counted, no
  byte.
\<close>

theorem saturation_abort_totals_witness:
  "ttl_pkts_recv fell_behind = 6 \<and> ttl_bytes_recv fell_behind = 0"
proof -
  let ?cfg = "example_config 1 False"
  let ?s0 = "initialize ?cfg blank"
  have q: "adv_net_get_q_id (data_burst 6 1000) \<noteq> 0"
    by (simp add: data_burst_def adv_net_get_q_id_def)
  have sat: "saturation_reports ?s0 < saturation_reports fell_behind"
    by (simp add: fell_behind_eval) (simp add: saturation_reports_def initialize_def)
  from saturation_abort_totals[OF q fell_behind_eval(1) sat]
  show ?thesis
    by (simp add: initialize_def adv_net_get_num_pkts_def data_burst_def)
qed

end
